theory Spec2Isabelle
  imports Complex_Main
begin

section \<open>The notebook: ART and the HHL circuit for a 2x2 phantom\<close>

text \<open>
  The notebook \<^verbatim>\<open>HHL-Medical-imaging.ipynb\<close> is a script over numpy arrays and a Qiskit
  circuit. Its cells are embedded as functions of the variables they read. numpy's
  float64 numbers are modelled as exact reals; where the script divides by a number that
  can be zero, numpy's non-finite results are made explicit further below, and the
  rescaling of the extraction cell is given with the binary64 rounding as well.
  A shape that numpy rejects, or an argument that Qiskit rejects, is an error value.
\<close>

datatype py_error = IndexError | ValueError | ZeroDivisionError | QiskitError

type_synonym vec = "real list"
type_synonym mat = "real list list"

subsection \<open>Projection matrix and measurement vector (cell 8)\<close>

definition phantom2 :: mat where
  "phantom2 = [[1, 2], [3, 4]]"

definition coords :: "(real \<times> real) list" where
  "coords = [(- 1/2, - 1/2), (1/2, - 1/2), (- 1/2, 1/2), (1/2, 1/2)]"

text \<open>\<^verbatim>\<open>math.radians\<close>.\<close>

definition radians :: "real \<Rightarrow> real" where
  "radians deg = deg * pi / 180"

text \<open>\<^verbatim>\<open>hit = float(abs(d - (x*math.cos(phi) + y*math.sin(phi))) < 1e-6)\<close>\<close>

definition hit :: "real \<Rightarrow> real \<Rightarrow> real \<times> real \<Rightarrow> real" where
  "hit phi d xy =
     (case xy of (x, y) \<Rightarrow> if \<bar>d - (x * cos phi + y * sin phi)\<bar> < 1 / 10 ^ 6 then 1 else 0)"

text \<open>The inner loop over the pixels: the row of hits, and \<^verbatim>\<open>val\<close> accumulated from 0.0.\<close>

definition proj_row :: "real \<Rightarrow> nat \<Rightarrow> vec" where
  "proj_row phi det = map (hit phi (real det - 1/2)) coords"

definition proj_val :: "mat \<Rightarrow> real \<Rightarrow> nat \<Rightarrow> real" where
  "proj_val phantom phi det =
     foldl (\<lambda>val (h, p). val + h * p) 0 (zip (proj_row phi det) (concat phantom))"

definition build_A :: "real list \<Rightarrow> mat" where
  "build_A degs = concat (map (\<lambda>phi_deg. map (proj_row (radians phi_deg)) [0..<2]) degs)"

definition build_b :: "mat \<Rightarrow> real list \<Rightarrow> vec" where
  "build_b phantom degs =
     concat (map (\<lambda>phi_deg. map (proj_val phantom (radians phi_deg)) [0..<2]) degs)"

definition A4 :: mat where
  "A4 = build_A [0, 90]"

definition b4 :: vec where
  "b4 = build_b phantom2 [0, 90]"

subsection \<open>Algebraic reconstruction technique (cell 10)\<close>

text \<open>
  \<^verbatim>\<open>ai.dot(x)\<close> for one-dimensional arrays of equal length; numpy's check of the
  lengths is made where the product is used.
\<close>

definition dot :: "vec \<Rightarrow> vec \<Rightarrow> real" where
  "dot u v = sum_list (map2 (*) u v)"

text \<open>
  The body of the inner loop for row \<open>i\<close>:
  \<^verbatim>\<open>
  ai = A4[i]
  n2 = ai.dot(ai)
  if n2 > 0:
      r = b4[i] - ai.dot(x_art)
      x_art += relax * (r / n2) * ai
  \<close>
  \<^verbatim>\<open>A4[i]\<close> and \<^verbatim>\<open>b4[i]\<close> raise IndexError out of range; \<^verbatim>\<open>ai.dot(x_art)\<close> raises
  ValueError when the lengths differ.
\<close>

definition art_row :: "mat \<Rightarrow> vec \<Rightarrow> real \<Rightarrow> vec \<Rightarrow> nat \<Rightarrow> py_error + vec" where
  "art_row A b relax x i =
     (if i < length A then
        (let ai = A ! i; n2 = dot ai ai in
         if n2 > 0 then
           (if i < length b then
              (if length ai = length x then
                 (let r = b ! i - dot ai x in
                  Inr (map2 (+) x (map ((*) (relax * (r / n2))) ai)))
               else Inl ValueError)
            else Inl IndexError)
         else Inr x)
      else Inl IndexError)"

text \<open>\<^verbatim>\<open>for i in range(4): ...\<close> as a loop over the list of indices.\<close>

fun art_rows :: "mat \<Rightarrow> vec \<Rightarrow> real \<Rightarrow> nat list \<Rightarrow> vec \<Rightarrow> py_error + vec" where
  "art_rows A b relax [] x = Inr x"
| "art_rows A b relax (i # is) x =
     (case art_row A b relax x i of
        Inl e \<Rightarrow> Inl e
      | Inr x' \<Rightarrow> art_rows A b relax is x')"

text \<open>\<^verbatim>\<open>for _ in range(iters): for i in range(4): ...\<close>\<close>

fun art_sweeps :: "mat \<Rightarrow> vec \<Rightarrow> real \<Rightarrow> nat \<Rightarrow> vec \<Rightarrow> py_error + vec" where
  "art_sweeps A b relax 0 x = Inr x"
| "art_sweeps A b relax (Suc n) x =
     (case art_rows A b relax [0..<4] x of
        Inl e \<Rightarrow> Inl e
      | Inr x' \<Rightarrow> art_sweeps A b relax n x')"

text \<open>\<^verbatim>\<open>x_art = np.zeros(4)\<close>, then the sweeps.\<close>

definition x_art :: "mat \<Rightarrow> vec \<Rightarrow> nat \<Rightarrow> real \<Rightarrow> py_error + vec" where
  "x_art A b iters relax = art_sweeps A b relax iters (replicate 4 0)"

text \<open>The script's parameters: \<^verbatim>\<open>iters, relax = 10, 1.0\<close>.\<close>

definition iters :: nat where
  "iters = 10"

definition relax :: real where
  "relax = 1"

subsection \<open>The ART of the specification\<close>

text \<open>
  The specification's wording, for a matrix of any shape: start from the zero vector of
  the matrix's width; \<open>N\<close> full sweeps; each sweep visits every row in ascending order; a
  row of positive squared norm moves \<open>x\<close> by \<open>\<omega> (r / \<parallel>a\<^sub>i\<parallel>\<^sup>2) a\<^sub>i\<close> with
  \<open>r = b\<^sub>i - a\<^sub>i \<cdot> x\<close>; a row of zero norm is skipped.
\<close>

definition spec_update :: "mat \<Rightarrow> vec \<Rightarrow> real \<Rightarrow> nat \<Rightarrow> vec \<Rightarrow> vec" where
  "spec_update A b \<omega> i x =
     (if dot (A ! i) (A ! i) > 0
      then map2 (+) x (map ((*) (\<omega> * ((b ! i - dot (A ! i) x) / dot (A ! i) (A ! i)))) (A ! i))
      else x)"

definition spec_sweep :: "mat \<Rightarrow> vec \<Rightarrow> real \<Rightarrow> vec \<Rightarrow> vec" where
  "spec_sweep A b \<omega> x = fold (spec_update A b \<omega>) [0..<length A] x"

definition spec_art :: "mat \<Rightarrow> vec \<Rightarrow> nat \<Rightarrow> real \<Rightarrow> vec" where
  "spec_art A b N \<omega> = ((spec_sweep A b \<omega>) ^^ N) (replicate (length (hd A)) 0)"

text \<open>A system of five rows, for comparison with the specification's sweep over all rows.\<close>

definition A5 :: mat where
  "A5 = [[1, 0, 0, 0], [0, 1, 0, 0], [0, 0, 1, 0], [0, 0, 0, 1], [1, 0, 0, 0]]"

definition b5 :: vec where
  "b5 = [1, 1, 1, 1, 2]"

subsection \<open>numpy's float64 at a division by zero\<close>

text \<open>
  numpy does not raise on a division by zero: it emits a RuntimeWarning and produces
  \<^verbatim>\<open>nan\<close> or \<^verbatim>\<open>inf\<close>, which then propagate by the IEEE 754 rules. The operations of
  this subsection are exact on finite values; the rounded operations follow with the
  rescaling in binary64. The sign of zero is not modelled (a zero is \<open>+0\<close>).
\<close>

datatype npfloat = Fin real | PInf | NInf | NaN

fun np_neg :: "npfloat \<Rightarrow> npfloat" where
  "np_neg (Fin a) = Fin (- a)"
| "np_neg PInf = NInf"
| "np_neg NInf = PInf"
| "np_neg NaN = NaN"

fun np_add :: "npfloat \<Rightarrow> npfloat \<Rightarrow> npfloat" where
  "np_add (Fin a) (Fin b) = Fin (a + b)"
| "np_add NaN y = NaN"
| "np_add x NaN = NaN"
| "np_add PInf NInf = NaN"
| "np_add NInf PInf = NaN"
| "np_add PInf y = PInf"
| "np_add NInf y = NInf"
| "np_add x PInf = PInf"
| "np_add x NInf = NInf"

definition np_sub :: "npfloat \<Rightarrow> npfloat \<Rightarrow> npfloat" where
  "np_sub x y = np_add x (np_neg y)"

text \<open>The infinity of the sign of a nonzero real.\<close>

definition inf_of_sign :: "real \<Rightarrow> npfloat" where
  "inf_of_sign a = (if a > 0 then PInf else NInf)"

fun np_mul :: "npfloat \<Rightarrow> npfloat \<Rightarrow> npfloat" where
  "np_mul (Fin a) (Fin b) = Fin (a * b)"
| "np_mul NaN y = NaN"
| "np_mul x NaN = NaN"
| "np_mul (Fin a) PInf = (if a = 0 then NaN else inf_of_sign a)"
| "np_mul (Fin a) NInf = (if a = 0 then NaN else inf_of_sign (- a))"
| "np_mul PInf (Fin b) = (if b = 0 then NaN else inf_of_sign b)"
| "np_mul NInf (Fin b) = (if b = 0 then NaN else inf_of_sign (- b))"
| "np_mul PInf PInf = PInf"
| "np_mul NInf NInf = PInf"
| "np_mul PInf NInf = NInf"
| "np_mul NInf PInf = NInf"

fun np_div :: "npfloat \<Rightarrow> npfloat \<Rightarrow> npfloat" where
  "np_div (Fin a) (Fin b) =
     (if b \<noteq> 0 then Fin (a / b) else if a = 0 then NaN else inf_of_sign a)"
| "np_div NaN y = NaN"
| "np_div x NaN = NaN"
| "np_div (Fin a) PInf = Fin 0"
| "np_div (Fin a) NInf = Fin 0"
| "np_div PInf (Fin b) = (if b \<ge> 0 then PInf else NInf)"
| "np_div NInf (Fin b) = (if b \<ge> 0 then NInf else PInf)"
| "np_div PInf PInf = NaN"
| "np_div PInf NInf = NaN"
| "np_div NInf PInf = NaN"
| "np_div NInf NInf = NaN"

text \<open>A complex128 value: real and imaginary part.\<close>

type_synonym npcomplex = "npfloat \<times> npfloat"

text \<open>
  numpy's complex product \<open>(a\<^sub>r b\<^sub>r - a\<^sub>i b\<^sub>i, a\<^sub>r b\<^sub>i + a\<^sub>i b\<^sub>r)\<close>, and its quotient by a
  real scalar \<open>n\<close> (cast to \<open>n + 0j\<close>): \<open>(a\<^sub>r / n, a\<^sub>i / n)\<close> for \<open>n \<noteq> 0\<close>, and the same
  two divisions by \<open>\<bar>n\<bar> = 0\<close> otherwise.
\<close>

definition npc_mul :: "npcomplex \<Rightarrow> npcomplex \<Rightarrow> npcomplex" where
  "npc_mul x y =
     (np_sub (np_mul (fst x) (fst y)) (np_mul (snd x) (snd y)),
      np_add (np_mul (fst x) (snd y)) (np_mul (snd x) (fst y)))"

definition npc_div_real :: "complex \<Rightarrow> real \<Rightarrow> npcomplex" where
  "npc_div_real z n = (np_div (Fin (Re z)) (Fin n), np_div (Fin (Im z)) (Fin n))"


subsection \<open>Postselection and extraction (cell 22)\<close>

text \<open>
  \<^verbatim>\<open>state.data\<close> is the array of the \<open>2\<^sup>8\<close> amplitudes.
  \<^verbatim>\<open>tensor = state.data.reshape([2]*8)\<close>: in numpy's row-major order the entry at the
  index list \<open>[i\<^sub>0, \<dots>, i\<^sub>7]\<close> is the amplitude at position \<open>((i\<^sub>0 2 + i\<^sub>1) 2 + \<dots>) 2 + i\<^sub>7\<close>,
  so the first axis is the most significant bit of the position.
\<close>

definition tensor :: "complex list \<Rightarrow> nat list \<Rightarrow> complex" where
  "tensor data ix = data ! foldl (\<lambda>n i. 2 * n + i) 0 ix"

text \<open>
  \<^verbatim>\<open>sys_amps = tensor[1].sum(axis=(0,1,2,3,4))\<close>: the first axis fixed at 1, the next five
  axes summed, the last two axes kept.
\<close>

definition sys_amps :: "complex list \<Rightarrow> complex list list" where
  "sys_amps data =
     map (\<lambda>p. map (\<lambda>q.
         sum_list [tensor data [1, a, b, c, d, e, p, q].
                   a \<leftarrow> [0, 1], b \<leftarrow> [0, 1], c \<leftarrow> [0, 1], d \<leftarrow> [0, 1], e \<leftarrow> [0, 1]])
       [0, 1]) [0, 1]"

text \<open>\<^verbatim>\<open>np.linalg.norm\<close> of a complex vector.\<close>

definition vnorm :: "complex list \<Rightarrow> real" where
  "vnorm v = sqrt (sum_list (map (\<lambda>z. (cmod z)\<^sup>2) v))"

text \<open>\<^verbatim>\<open>vec /= np.linalg.norm(vec)\<close>\<close>

definition normalize_vec :: "complex list \<Rightarrow> npcomplex list" where
  "normalize_vec v = map (\<lambda>z. npc_div_real z (vnorm v)) v"

text \<open>
  \<^verbatim>\<open>vec *= (1.0 / vec[0].real)\<close>: the scalar is a float64, cast to complex for the
  product. Here the quotient and the products are exact; \<open>rescale_vec64\<close> below is the same
  line with every float64 operation rounded.
\<close>

definition rescale_vec :: "npcomplex list \<Rightarrow> npcomplex list" where
  "rescale_vec vec = (let s = np_div (Fin 1) (fst (vec ! 0)) in map (\<lambda>z. npc_mul z (s, Fin 0)) vec)"

text \<open>\<^verbatim>\<open>x_qhl = vec[[3,1,2,0]].reshape(2,2)\<close>\<close>

definition reorder :: "'a list \<Rightarrow> 'a list list" where
  "reorder vec = (let w = map (\<lambda>i. vec ! i) [3, 1, 2, 0] in [[w ! 0, w ! 1], [w ! 2, w ! 3]])"

text \<open>
  The cell, from the statevector to \<^verbatim>\<open>hhl_recon = np.real(x_qhl)\<close>. The reshape raises
  ValueError unless there are \<open>2\<^sup>8\<close> amplitudes; nothing else in the cell raises.
\<close>

definition hhl_recon :: "complex list \<Rightarrow> py_error + npfloat list list" where
  "hhl_recon data =
     (if length data = 256 then
        (let vec = concat (sys_amps data);
             vec = normalize_vec vec;
             vec = rescale_vec vec;
             x_qhl = reorder vec
         in Inr (map (map fst) x_qhl))
      else Inl ValueError)"

text \<open>
  The circuit is \<^verbatim>\<open>QuantumCircuit(anc, clk, sysq, creg)\<close>: the ancilla is qubit 0, the
  clock qubits are 1 to 5, the system qubits are 6 and 7. Qiskit's \<^verbatim>\<open>Statevector\<close>
  is little-endian: the amplitude at position \<open>n\<close> belongs to the basis state in which
  qubit \<open>k\<close> has the value of bit \<open>k\<close> of \<open>n\<close>. The position of the basis state with
  ancilla \<open>a\<close>, clock value \<open>c\<close> (clock qubit \<open>j\<close> = bit \<open>j\<close> of \<open>c\<close>) and system value \<open>s\<close>:
\<close>

definition basis_index :: "nat \<Rightarrow> nat \<Rightarrow> nat \<Rightarrow> nat" where
  "basis_index a c s = a + 2 * c + 64 * s"

text \<open>
  The specification's selection: the amplitudes with ancilla 1, summed over all clock
  values, one entry per system basis state.
\<close>

definition postselect_anc1 :: "complex list \<Rightarrow> complex list" where
  "postselect_anc1 data = map (\<lambda>s. sum_list (map (\<lambda>c. data ! basis_index 1 c s) [0..<32])) [0..<4]"

text \<open>
  What \<^verbatim>\<open>tensor[1].sum(axis=(0,1,2,3,4))\<close> is in terms of the qubits: the first axis is
  qubit 7, the second system qubit; the summed axes are qubits 6 to 2, the first system
  qubit and the clock qubits 4 to 1; the kept axes are qubits 1 and 0, the first clock
  qubit and the ancilla. Entry \<open>k\<close> of the flattened result sums the amplitudes at the
  positions \<open>128 + 4 m + k\<close>.
\<close>

definition sysq1_marginal :: "complex list \<Rightarrow> complex list" where
  "sysq1_marginal data = map (\<lambda>k. sum_list (map (\<lambda>m. data ! (128 + 4 * m + k)) [0..<32])) [0..<4]"

text \<open>
  The cell's last four lines in exact arithmetic, on a vector \<open>v\<close> of four amplitudes:
  divide by the Euclidean norm, multiply by \<open>1 / Re (vec[0])\<close>, permute by \<open>[3,1,2,0]\<close>, take
  real parts.
\<close>

definition scaled_amps :: "complex list \<Rightarrow> complex list" where
  "scaled_amps v =
     (let u = map (\<lambda>z. z / complex_of_real (vnorm v)) v
      in map (\<lambda>z. z * complex_of_real (1 / Re (u ! 0))) u)"

definition permuted_real :: "complex list \<Rightarrow> real list list" where
  "permuted_real w = [[Re (w ! 3), Re (w ! 1)], [Re (w ! 2), Re (w ! 0)]]"

text \<open>A statevector given by its nonzero amplitudes, and \<open>|0\<dots>0\<rangle>\<close>.\<close>

definition state_of :: "(nat \<times> complex) list \<Rightarrow> complex list" where
  "state_of amps = map (\<lambda>n. case map_of amps n of Some z \<Rightarrow> z | None \<Rightarrow> 0) [0..<256]"

definition ground_state :: "complex list" where
  "ground_state = state_of [(0, 1)]"

text \<open>A finite complex number as a complex128 value.\<close>

definition fin_c :: "complex \<Rightarrow> npcomplex" where
  "fin_c z = (Fin (Re z), Fin (Im z))"

subsection \<open>The rescaling in binary64\<close>

text \<open>
  A float64 is an IEEE 754 binary64 number, and every operation on float64 values rounds
  its exact result to the nearest one, ties to the even significand. \<open>rne\<close> rounds a real
  to the nearest integer, ties to even. The spacing of the binary64 numbers around
  \<open>r \<noteq> 0\<close> is \<open>2\<^sup>e\<^sup>-\<^sup>5\<^sup>2\<close> for \<open>2\<^sup>e \<le> \<bar>r\<bar> < 2\<^sup>e\<^sup>+\<^sup>1\<close>, and \<open>2\<^sup>-\<^sup>1\<^sup>0\<^sup>7\<^sup>4\<close> below \<open>2\<^sup>-\<^sup>1\<^sup>0\<^sup>2\<^sup>2\<close> (the subnormal
  numbers). A result that rounds to \<open>2\<^sup>1\<^sup>0\<^sup>2\<^sup>4\<close> or more in magnitude overflows to the
  infinity of its sign.
\<close>

definition rne :: "real \<Rightarrow> int" where
  "rne x = (let f = \<lfloor>x\<rfloor>; d = x - of_int f in
     if d < 1 / 2 then f else if 1 / 2 < d then f + 1 else if even f then f else f + 1)"

definition ulp64 :: "real \<Rightarrow> real" where
  "ulp64 r = 2 powi max (\<lfloor>log 2 \<bar>r\<bar>\<rfloor> - 52) (- 1074)"

definition round64 :: "real \<Rightarrow> npfloat" where
  "round64 r = (if r = 0 then Fin 0 else
     (let q = of_int (rne (r / ulp64 r)) * ulp64 r in
      if 2 ^ 1024 \<le> \<bar>q\<bar> then inf_of_sign r else Fin q))"

text \<open>
  The float64 operations: the value of the operation above, rounded when it is finite.
\<close>

definition rounded :: "npfloat \<Rightarrow> npfloat" where
  "rounded x = (case x of Fin r \<Rightarrow> round64 r | _ \<Rightarrow> x)"

definition f64_add :: "npfloat \<Rightarrow> npfloat \<Rightarrow> npfloat" where
  "f64_add x y = rounded (np_add x y)"

definition f64_sub :: "npfloat \<Rightarrow> npfloat \<Rightarrow> npfloat" where
  "f64_sub x y = rounded (np_sub x y)"

definition f64_mul :: "npfloat \<Rightarrow> npfloat \<Rightarrow> npfloat" where
  "f64_mul x y = rounded (np_mul x y)"

definition f64_div :: "npfloat \<Rightarrow> npfloat \<Rightarrow> npfloat" where
  "f64_div x y = rounded (np_div x y)"

text \<open>
  The complex128 product: numpy computes \<open>(a\<^sub>r b\<^sub>r - a\<^sub>i b\<^sub>i, a\<^sub>r b\<^sub>i + a\<^sub>i b\<^sub>r)\<close> with four float64
  products, one difference and one sum.
\<close>

definition c128_mul :: "npcomplex \<Rightarrow> npcomplex \<Rightarrow> npcomplex" where
  "c128_mul x y =
     (f64_sub (f64_mul (fst x) (fst y)) (f64_mul (snd x) (snd y)),
      f64_add (f64_mul (fst x) (snd y)) (f64_mul (snd x) (fst y)))"

text \<open>
  \<^verbatim>\<open>vec *= (1.0 / vec[0].real)\<close> on a complex128 array: the float64 quotient
  \<open>1.0 / vec[0].real\<close> is computed once and cast to complex, and every entry is multiplied
  by it. \<open>rescale_vec\<close> above is this line without the rounding.
\<close>

definition rescale_vec64 :: "npcomplex list \<Rightarrow> npcomplex list" where
  "rescale_vec64 vec =
     (let s = f64_div (Fin 1) (fst (vec ! 0)) in map (\<lambda>z. c128_mul z (s, Fin 0)) vec)"

text \<open>
  The rest of the cell on the normalised complex128 array \<open>vec\<close>: the rescaling,
  \<^verbatim>\<open>x_qhl = vec[[3,1,2,0]].reshape(2,2)\<close> and \<^verbatim>\<open>hhl_recon = np.real(x_qhl)\<close>.
\<close>

definition hhl_recon64 :: "npcomplex list \<Rightarrow> npfloat list list" where
  "hhl_recon64 vec = map (map fst) (reorder (rescale_vec64 vec))"


definition subnormal_vec :: "npcomplex list" where
  "subnormal_vec = [(Fin (1 / 2 ^ 1074), Fin 0), (Fin 1, Fin 0), (Fin 0, Fin 0), (Fin 0, Fin 0)]"

subsection \<open>The Hermitian system (cell 12)\<close>

text \<open>
  A two-dimensional array is a nonempty list of rows of equal length; \<open>is_matrix m n A\<close>
  says that \<open>A\<close> has shape \<open>(m, n)\<close>.
\<close>

definition is_matrix :: "nat \<Rightarrow> nat \<Rightarrow> 'a list list \<Rightarrow> bool" where
  "is_matrix m n A = (0 < m \<and> length A = m \<and> list_all (\<lambda>row. length row = n) A)"

definition nrows :: "'a list list \<Rightarrow> nat" where
  "nrows A = length A"

definition ncols :: "'a list list \<Rightarrow> nat" where
  "ncols A = length (hd A)"

text \<open>\<^verbatim>\<open>A.T\<close>\<close>

definition transpose_mat :: "mat \<Rightarrow> mat" where
  "transpose_mat A = map (\<lambda>j. map (\<lambda>row. row ! j) A) [0..<ncols A]"

text \<open>
  \<^verbatim>\<open>A @ B\<close> for two-dimensional arrays and \<^verbatim>\<open>A @ b\<close> for a matrix and a vector: numpy
  raises ValueError unless the inner dimensions agree.
\<close>

definition matmul :: "mat \<Rightarrow> mat \<Rightarrow> py_error + mat" where
  "matmul A B =
     (if ncols A = nrows B
      then Inr (map (\<lambda>row. map (\<lambda>col. dot row col) (transpose_mat B)) A)
      else Inl ValueError)"

definition matvec :: "mat \<Rightarrow> vec \<Rightarrow> py_error + vec" where
  "matvec A b = (if ncols A = length b then Inr (map (\<lambda>row. dot row b) A) else Inl ValueError)"

text \<open>\<^verbatim>\<open>np.eye(n)\<close>\<close>

definition eye :: "nat \<Rightarrow> mat" where
  "eye n = map (\<lambda>i. map (\<lambda>j. if i = j then 1 else 0) [0..<n]) [0..<n]"

text \<open>
  \<^verbatim>\<open>A + B\<close> with numpy's broadcasting: along each axis the two lengths must be equal or
  one of them 1, and an axis of length 1 is repeated; otherwise ValueError.
\<close>

definition stretch :: "nat \<Rightarrow> 'a list \<Rightarrow> 'a list" where
  "stretch k xs = (if length xs = 1 then replicate k (hd xs) else xs)"

definition broadcastable :: "nat \<Rightarrow> nat \<Rightarrow> bool" where
  "broadcastable k l = (k = l \<or> k = 1 \<or> l = 1)"

definition mat_add :: "mat \<Rightarrow> mat \<Rightarrow> py_error + mat" where
  "mat_add A B =
     (if broadcastable (nrows A) (nrows B) \<and> broadcastable (ncols A) (ncols B) then
        (let r = max (nrows A) (nrows B); c = max (ncols A) (ncols B)
         in Inr (map2 (map2 (+)) (stretch r (map (stretch c) A)) (stretch r (map (stretch c) B))))
      else Inl ValueError)"

text \<open>\<^verbatim>\<open>A_herm = A4.T @ A4 + np.eye(4)\<close>\<close>

definition A_herm :: "mat \<Rightarrow> py_error + mat" where
  "A_herm A =
     (case matmul (transpose_mat A) A of
        Inl e \<Rightarrow> Inl e
      | Inr M \<Rightarrow> mat_add M (eye 4))"

text \<open>\<^verbatim>\<open>b_herm = A4.T @ b4\<close>\<close>

definition b_herm :: "mat \<Rightarrow> vec \<Rightarrow> py_error + vec" where
  "b_herm A b = matvec (transpose_mat A) b"

text \<open>\<^verbatim>\<open>b_norm = b_herm / np.linalg.norm(b_herm)\<close>: a float64 division, entry by entry.\<close>

definition norm2 :: "vec \<Rightarrow> real" where
  "norm2 x = sqrt (sum_list (map (\<lambda>t. t\<^sup>2) x))"

definition b_norm :: "vec \<Rightarrow> npfloat list" where
  "b_norm bh = map (\<lambda>t. np_div (Fin t) (Fin (norm2 bh))) bh"

text \<open>Python's \<^verbatim>\<open>max\<close> of a sequence: ValueError when it is empty.\<close>

fun py_max :: "real list \<Rightarrow> py_error + real" where
  "py_max [] = Inl ValueError"
| "py_max (x # xs) = Inr (fold max xs x)"

text \<open>
  The cell up to \<^verbatim>\<open>t0\<close>. \<^verbatim>\<open>np.linalg.eigvals\<close> is LAPACK's and is a parameter:
  \<^verbatim>\<open>\<lambda>_max = max(np.linalg.eigvals(A_herm).real)\<close>, \<^verbatim>\<open>t0 = 2 * pi / \<lambda>_max\<close>
  (a float64 division).
\<close>

record hhl_setup =
  setup_A :: mat
  setup_b :: vec
  setup_b_norm :: "npfloat list"
  setup_lam_max :: real
  setup_t0 :: npfloat

definition hermitian_system :: "(mat \<Rightarrow> complex list) \<Rightarrow> mat \<Rightarrow> vec \<Rightarrow> py_error + hhl_setup" where
  "hermitian_system eigvals A b =
     (case A_herm A of
        Inl e \<Rightarrow> Inl e
      | Inr H \<Rightarrow>
          (case b_herm A b of
             Inl e \<Rightarrow> Inl e
           | Inr bh \<Rightarrow>
               (case py_max (map Re (eigvals H)) of
                  Inl e \<Rightarrow> Inl e
                | Inr lam \<Rightarrow>
                    Inr \<lparr>setup_A = H, setup_b = bh, setup_b_norm = b_norm bh,
                         setup_lam_max = lam, setup_t0 = np_div (Fin (2 * pi)) (Fin lam)\<rparr>)))"

subsection \<open>The Hermitian system of the specification\<close>

text \<open>
  \<open>A\<^sup>T A + I\<close> and \<open>A\<^sup>T b\<close> entry by entry, for a matrix of \<open>n\<close> columns; a matrix is
  symmetric when it equals its transpose.
\<close>

definition gram_plus_identity :: "nat \<Rightarrow> mat \<Rightarrow> mat" where
  "gram_plus_identity n A =
     map (\<lambda>i. map (\<lambda>j. (\<Sum>k<length A. A ! k ! i * A ! k ! j) + (if i = j then 1 else 0)) [0..<n])
       [0..<n]"

definition transposed_times :: "nat \<Rightarrow> mat \<Rightarrow> vec \<Rightarrow> vec" where
  "transposed_times n A b = map (\<lambda>i. \<Sum>k<length A. A ! k ! i * b ! k) [0..<n]"

definition symmetric :: "mat \<Rightarrow> bool" where
  "symmetric H = (transpose_mat H = H)"

text \<open>
  \<open>\<lambda>\<close> is an eigenvalue of the real matrix \<open>H\<close> with the complex eigenvector \<open>v\<close>:
  \<open>v\<close> is not the zero vector and \<open>H v = \<lambda> v\<close>.
\<close>

definition cmatvec :: "mat \<Rightarrow> complex list \<Rightarrow> complex list" where
  "cmatvec H v = map (\<lambda>row. sum_list (map2 (\<lambda>h x. complex_of_real h * x) row v)) H"

definition eigenpair :: "mat \<Rightarrow> complex \<Rightarrow> complex list \<Rightarrow> bool" where
  "eigenpair H lam v =
     (length v = length H \<and> list_ex (\<lambda>x. x \<noteq> 0) v \<and> cmatvec H v = map (\<lambda>x. lam * x) v)"

text \<open>
  What \<^verbatim>\<open>np.linalg.eigvals\<close> is taken to return for a square matrix \<open>H\<close>: as many values
  as \<open>H\<close> has rows, and exactly the eigenvalues of \<open>H\<close> among them.
\<close>

definition lists_eigenvalues :: "mat \<Rightarrow> complex list \<Rightarrow> bool" where
  "lists_eigenvalues H evs =
     (length evs = length H \<and> (\<forall>lam. (lam \<in> set evs) = (\<exists>v. eigenpair H lam v)))"

text \<open>
  The eigenvalues 5, 3, 3, 1 of the notebook's \<^verbatim>\<open>A_herm\<close>, as the value of the LAPACK call
  on that matrix where an example needs one.
\<close>

definition eigvals_A4 :: "mat \<Rightarrow> complex list" where
  "eigvals_A4 H = [5, 3, 3, 1]"

subsection \<open>The unitary operators of phase estimation (cell 12, continued)\<close>

text \<open>
  \<^verbatim>\<open>scipy.linalg.expm\<close> is modelled as the exact matrix exponential. For that, square
  complex matrices over a finite index type are made a Banach algebra, with the maximal
  absolute row sum as norm, so that the exponential series of the library applies.
\<close>

datatype 'n cmat = Mat (entry: "'n \<Rightarrow> 'n \<Rightarrow> complex")

lemma cmat_eqI: "(\<And>i j. entry A i j = entry B i j) \<Longrightarrow> A = B"
  by (rule cmat.expand) (simp add: fun_eq_iff)

instantiation cmat :: (type) ab_group_add
begin

definition zero_cmat :: "'a cmat" where
  "zero_cmat = Mat (\<lambda>i j. 0)"

definition plus_cmat :: "'a cmat \<Rightarrow> 'a cmat \<Rightarrow> 'a cmat" where
  "plus_cmat A B = Mat (\<lambda>i j. entry A i j + entry B i j)"

definition uminus_cmat :: "'a cmat \<Rightarrow> 'a cmat" where
  "uminus_cmat A = Mat (\<lambda>i j. - entry A i j)"

definition minus_cmat :: "'a cmat \<Rightarrow> 'a cmat \<Rightarrow> 'a cmat" where
  "minus_cmat A B = Mat (\<lambda>i j. entry A i j - entry B i j)"

instance
  by standard (simp_all add: zero_cmat_def plus_cmat_def uminus_cmat_def minus_cmat_def ac_simps)

end

lemma entry_zero [simp]: "entry 0 i j = 0"
  by (simp add: zero_cmat_def)

lemma entry_add [simp]: "entry (A + B) i j = entry A i j + entry B i j"
  by (simp add: plus_cmat_def)

lemma entry_minus [simp]: "entry (- A) i j = - entry A i j"
  by (simp add: uminus_cmat_def)

lemma entry_diff [simp]: "entry (A - B) i j = entry A i j - entry B i j"
  by (simp add: minus_cmat_def)

instantiation cmat :: (type) real_vector
begin

definition scaleR_cmat :: "real \<Rightarrow> 'a cmat \<Rightarrow> 'a cmat" where
  "scaleR_cmat r A = Mat (\<lambda>i j. r *\<^sub>R entry A i j)"

instance
  by standard (auto intro!: cmat_eqI simp: scaleR_cmat_def algebra_simps)

end

lemma entry_scaleR [simp]: "entry (r *\<^sub>R A) i j = r *\<^sub>R entry A i j"
  by (simp add: scaleR_cmat_def)

instantiation cmat :: (finite) ring_1
begin

definition one_cmat :: "'a cmat" where
  "one_cmat = Mat (\<lambda>i j. if i = j then 1 else 0)"

definition times_cmat :: "'a cmat \<Rightarrow> 'a cmat \<Rightarrow> 'a cmat" where
  "times_cmat A B = Mat (\<lambda>i j. \<Sum>k\<in>UNIV. entry A i k * entry B k j)"

instance
proof
  fix A B C :: "'a cmat"
  show "A * B * C = A * (B * C)"
  proof (rule cmat_eqI)
    fix i j
    have "entry (A * B * C) i j = (\<Sum>k\<in>UNIV. \<Sum>l\<in>UNIV. entry A i l * entry B l k * entry C k j)"
      by (simp add: times_cmat_def sum_distrib_right)
    also have "\<dots> = (\<Sum>l\<in>UNIV. \<Sum>k\<in>UNIV. entry A i l * entry B l k * entry C k j)"
      by (rule sum.swap)
    also have "\<dots> = entry (A * (B * C)) i j"
      by (simp add: times_cmat_def sum_distrib_left mult.assoc)
    finally show "entry (A * B * C) i j = entry (A * (B * C)) i j" .
  qed
  show "1 * A = A"
    by (rule cmat_eqI) (simp add: times_cmat_def one_cmat_def if_distrib [of "\<lambda>x. x * _"] cong: if_cong)
  show "A * 1 = A"
    by (rule cmat_eqI) (simp add: times_cmat_def one_cmat_def if_distrib [of "\<lambda>x. _ * x"] cong: if_cong)
  show "(A + B) * C = A * C + B * C"
    by (rule cmat_eqI) (simp add: times_cmat_def distrib_right sum.distrib)
  show "A * (B + C) = A * B + A * C"
    by (rule cmat_eqI) (simp add: times_cmat_def distrib_left sum.distrib)
  show "(0::'a cmat) \<noteq> 1"
  proof
    assume "(0::'a cmat) = 1"
    then have "entry (0::'a cmat) undefined undefined = entry 1 undefined undefined" by simp
    then show False by (simp add: one_cmat_def)
  qed
qed

end

lemma entry_one: "entry 1 i j = (if i = j then 1 else 0)"
  by (simp add: one_cmat_def)

lemma entry_mult: "entry (A * B) i j = (\<Sum>k\<in>UNIV. entry A i k * entry B k j)"
  by (simp add: times_cmat_def)

instance cmat :: (finite) real_algebra_1
  by standard (auto intro!: cmat_eqI simp: entry_mult scaleR_sum_right)


definition rowsum :: "'n::finite cmat \<Rightarrow> 'n \<Rightarrow> real" where
  "rowsum A i = (\<Sum>j\<in>UNIV. cmod (entry A i j))"

definition maxrow :: "'n::finite cmat \<Rightarrow> real" where
  "maxrow A = Max (range (rowsum A))"

lemma rowsum_le_maxrow: "rowsum A i \<le> maxrow A"
  unfolding maxrow_def by (rule Max_ge) simp_all

lemma maxrow_leI: "(\<And>i. rowsum A i \<le> c) \<Longrightarrow> maxrow A \<le> c"
  unfolding maxrow_def by (subst Max_le_iff) auto

lemma maxrow_attained: "\<exists>i. maxrow A = rowsum A i"
proof -
  have "Max (range (rowsum A)) \<in> range (rowsum A)"
    by (rule Max_in) simp_all
  then show ?thesis unfolding maxrow_def by blast
qed

lemma rowsum_nonneg: "0 \<le> rowsum A i"
  by (simp add: rowsum_def sum_nonneg)

lemma cmod_entry_le_rowsum: "cmod (entry A i j) \<le> rowsum A i"
  unfolding rowsum_def by (rule member_le_sum) simp_all

lemma cmod_entry_le_maxrow: "cmod (entry A i j) \<le> maxrow A"
  using cmod_entry_le_rowsum [of A i j] rowsum_le_maxrow [of A i] by linarith

lemma maxrow_nonneg: "0 \<le> maxrow A"
  using rowsum_nonneg [of A undefined] rowsum_le_maxrow [of A undefined] by linarith

lemma maxrow_eq_0_iff: "maxrow A = 0 \<longleftrightarrow> A = 0"
proof
  assume z: "maxrow A = 0"
  show "A = 0"
  proof (rule cmat_eqI)
    fix i j
    from cmod_entry_le_maxrow [of A i j] z have "cmod (entry A i j) \<le> 0" by simp
    then show "entry A i j = entry 0 i j" by simp
  qed
next
  assume "A = 0"
  then have "rowsum A i = 0" for i by (simp add: rowsum_def)
  then have "maxrow A \<le> 0" by (intro maxrow_leI) simp
  with maxrow_nonneg [of A] show "maxrow A = 0" by linarith
qed

lemma maxrow_add: "maxrow (A + B) \<le> maxrow A + maxrow B"
proof (rule maxrow_leI)
  fix i
  have "rowsum (A + B) i \<le> rowsum A i + rowsum B i"
    unfolding rowsum_def sum.distrib [symmetric]
    by (intro sum_mono) (simp add: norm_triangle_ineq)
  also have "\<dots> \<le> maxrow A + maxrow B"
    by (intro add_mono rowsum_le_maxrow)
  finally show "rowsum (A + B) i \<le> maxrow A + maxrow B" .
qed

lemma rowsum_scaleR: "rowsum (r *\<^sub>R A) i = \<bar>r\<bar> * rowsum A i"
  by (simp add: rowsum_def sum_distrib_left)

lemma maxrow_scaleR: "maxrow (r *\<^sub>R A) = \<bar>r\<bar> * maxrow A"
proof (rule antisym)
  show "maxrow (r *\<^sub>R A) \<le> \<bar>r\<bar> * maxrow A"
    by (intro maxrow_leI) (simp add: rowsum_scaleR mult_left_mono rowsum_le_maxrow)
  obtain i where i: "maxrow A = rowsum A i" using maxrow_attained by blast
  have "\<bar>r\<bar> * maxrow A = rowsum (r *\<^sub>R A) i" by (simp add: i rowsum_scaleR)
  also have "\<dots> \<le> maxrow (r *\<^sub>R A)" by (rule rowsum_le_maxrow)
  finally show "\<bar>r\<bar> * maxrow A \<le> maxrow (r *\<^sub>R A)" .
qed

lemma maxrow_mult: "maxrow (A * B) \<le> maxrow A * maxrow B"
proof (rule maxrow_leI)
  fix i
  have "rowsum (A * B) i = (\<Sum>j\<in>UNIV. cmod (\<Sum>k\<in>UNIV. entry A i k * entry B k j))"
    by (simp add: rowsum_def entry_mult)
  also have "\<dots> \<le> (\<Sum>j\<in>UNIV. \<Sum>k\<in>UNIV. cmod (entry A i k) * cmod (entry B k j))"
    by (intro sum_mono order_trans [OF norm_sum]) (simp add: norm_mult)
  also have "\<dots> = (\<Sum>k\<in>UNIV. cmod (entry A i k) * rowsum B k)"
    by (subst sum.swap) (simp add: rowsum_def sum_distrib_left)
  also have "\<dots> \<le> (\<Sum>k\<in>UNIV. cmod (entry A i k) * maxrow B)"
    by (intro sum_mono mult_left_mono rowsum_le_maxrow) simp
  also have "\<dots> = rowsum A i * maxrow B"
    by (simp add: rowsum_def sum_distrib_right)
  also have "\<dots> \<le> maxrow A * maxrow B"
    by (intro mult_right_mono rowsum_le_maxrow maxrow_nonneg)
  finally show "rowsum (A * B) i \<le> maxrow A * maxrow B" .
qed

lemma maxrow_one: "maxrow (1 :: 'n::finite cmat) = 1"
proof -
  have "rowsum (1 :: 'n cmat) i = 1" for i
    by (simp add: rowsum_def entry_one if_distrib [of cmod] cong: if_cong)
  then show ?thesis by (simp add: maxrow_def)
qed

instantiation cmat :: (finite) real_normed_algebra_1
begin

definition norm_cmat :: "'a cmat \<Rightarrow> real" where
  "norm_cmat A = maxrow A"

definition sgn_cmat :: "'a cmat \<Rightarrow> 'a cmat" where
  "sgn_cmat A = A /\<^sub>R norm A"

definition dist_cmat :: "'a cmat \<Rightarrow> 'a cmat \<Rightarrow> real" where
  "dist_cmat A B = norm (A - B)"

definition uniformity_cmat :: "('a cmat \<times> 'a cmat) filter" where
  "uniformity_cmat = (INF e\<in>{0 <..}. principal {(x, y). dist x y < e})"

definition open_cmat :: "'a cmat set \<Rightarrow> bool" where
  "open_cmat U \<longleftrightarrow> (\<forall>x\<in>U. eventually (\<lambda>(x', y). x' = x \<longrightarrow> y \<in> U) uniformity)"

instance
proof
  fix r :: real and x y :: "'a cmat"
  show "norm x = 0 \<longleftrightarrow> x = 0" by (simp add: norm_cmat_def maxrow_eq_0_iff)
  show "norm (x + y) \<le> norm x + norm y" by (simp add: norm_cmat_def maxrow_add)
  show "norm (r *\<^sub>R x) = \<bar>r\<bar> * norm x" by (simp add: norm_cmat_def maxrow_scaleR)
  show "norm (x * y) \<le> norm x * norm y" by (simp add: norm_cmat_def maxrow_mult)
  show "norm (1 :: 'a cmat) = 1" by (simp add: norm_cmat_def maxrow_one)
qed (rule sgn_cmat_def dist_cmat_def open_cmat_def uniformity_cmat_def)+

end


lemma norm_cmat_le_sum: "norm A \<le> (\<Sum>i\<in>UNIV. \<Sum>j\<in>UNIV. cmod (entry A i j))"
proof -
  obtain i where i: "maxrow A = rowsum A i" using maxrow_attained by blast
  have "rowsum A i \<le> (\<Sum>i\<in>UNIV. rowsum A i)"
    by (rule member_le_sum) (simp_all add: rowsum_nonneg)
  then show ?thesis by (simp add: norm_cmat_def i rowsum_def)
qed

lemma bounded_linear_entry: "bounded_linear (\<lambda>A. entry A i j)"
proof (rule bounded_linear_intro [where K = 1])
  fix A :: "'a cmat"
  show "cmod (entry A i j) \<le> norm A * 1"
    by (simp add: norm_cmat_def cmod_entry_le_maxrow)
qed simp_all

instance cmat :: (finite) banach
proof
  fix X :: "nat \<Rightarrow> 'a cmat"
  assume C: "Cauchy X"
  have "Cauchy (\<lambda>n. entry (X n) i j)" for i j
    using bounded_linear_entry C by (rule bounded_linear.Cauchy)
  then have "convergent (\<lambda>n. entry (X n) i j)" for i j
    by (rule Cauchy_convergent)
  then have lim: "(\<lambda>n. entry (X n) i j) \<longlonglongrightarrow> lim (\<lambda>n. entry (X n) i j)" for i j
    by (simp add: convergent_LIMSEQ_iff)
  define L where "L = Mat (\<lambda>i j. lim (\<lambda>n. entry (X n) i j))"
  have "(\<lambda>n. cmod (entry (X n - L) i j)) \<longlonglongrightarrow> 0" for i j
    using lim [of i j] by (simp add: L_def LIM_zero_iff tendsto_norm_zero_iff)
  then have "(\<lambda>n. \<Sum>i\<in>UNIV. \<Sum>j\<in>UNIV. cmod (entry (X n - L) i j)) \<longlonglongrightarrow> 0"
    by (intro tendsto_null_sum)
  then have S: "(\<lambda>n. \<Sum>i\<in>UNIV. \<Sum>j\<in>UNIV. cmod (entry (X n - L) i j)) \<longlonglongrightarrow> 0" .
  have "(\<lambda>n. norm (X n - L)) \<longlonglongrightarrow> 0"
  proof (rule tendsto_sandwich)
    show "\<forall>\<^sub>F n in sequentially. 0 \<le> norm (X n - L)" by simp
    show "\<forall>\<^sub>F n in sequentially. norm (X n - L) \<le> (\<Sum>i\<in>UNIV. \<Sum>j\<in>UNIV. cmod (entry (X n - L) i j))"
      by (rule always_eventually) (simp add: norm_cmat_le_sum del: entry_diff)
    show "(\<lambda>n. 0::real) \<longlonglongrightarrow> 0" by simp
    show "(\<lambda>n. \<Sum>i\<in>UNIV. \<Sum>j\<in>UNIV. cmod (entry (X n - L) i j)) \<longlonglongrightarrow> 0" by (rule S)
  qed
  then have "X \<longlonglongrightarrow> L"
    by (simp add: LIM_zero_iff [symmetric, of X] tendsto_norm_zero_iff)
  then show "convergent X" by (rule convergentI)
qed

text \<open>The conjugate transpose, and the product with a complex scalar.\<close>

definition adjoint :: "'n cmat \<Rightarrow> 'n cmat" where
  "adjoint A = Mat (\<lambda>i j. cnj (entry A j i))"

definition cscale :: "complex \<Rightarrow> 'n cmat \<Rightarrow> 'n cmat" where
  "cscale c A = Mat (\<lambda>i j. c * entry A i j)"


text \<open>
  The system register has two qubits; the row of the 4-by-4 array \<^verbatim>\<open>A_herm\<close> that
  belongs to the system basis state \<open>(s\<^sub>1, s\<^sub>0)\<close> is \<open>2 s\<^sub>1 + s\<^sub>0\<close>.
\<close>

type_synonym sys_index = "bool \<times> bool"

definition row_of :: "sys_index \<Rightarrow> nat" where
  "row_of s = 2 * of_bool (fst s) + of_bool (snd s)"

definition cmat_of :: "mat \<Rightarrow> sys_index cmat" where
  "cmat_of A = Mat (\<lambda>i j. complex_of_real (A ! row_of i ! row_of j))"

text \<open>
  \<^verbatim>\<open>
  U_ops = [
      Operator(expm(1j * A_herm * (2**k) * t0)).to_instruction().control(1)
      for k in range(5)
  ]
  \<close>
  An instruction is the unitary with its number of control qubits. \<^verbatim>\<open>A_herm\<close> has
  shape \<open>(4, 4)\<close> whenever the cell gets this far, and \<open>t0\<close> is taken finite.
\<close>

datatype instruction = Controlled nat "sys_index cmat"

definition U_ops :: "mat \<Rightarrow> real \<Rightarrow> instruction list" where
  "U_ops A t0 =
     map (\<lambda>k. Controlled 1 (exp (cscale (\<i> * complex_of_real (2 ^ k) * complex_of_real t0) (cmat_of A))))
       [0..<5]"


subsection \<open>The circuit and its gates (cell 14)\<close>

text \<open>
  \<^verbatim>\<open>qc = QuantumCircuit(anc, clk, sysq, creg)\<close>: qubit 0 is the ancilla, qubits 1 to 5 are
  the clock register, qubits 6 and 7 the system register. A subroutine of the notebook
  appends gates to the circuit it is given; its model is the list of gates it appends.
\<close>

definition anc :: nat where
  "anc = 0"

definition clk :: "nat \<Rightarrow> nat" where
  "clk j = 1 + j"

definition sysq :: "nat \<Rightarrow> nat" where
  "sysq s = 6 + s"

datatype gate =
    Barrier
  | Initialize "real list" nat nat
  | H nat
  | X nat
  | CP real nat nat
  | SWAP nat nat
  | MCRY real "nat list" nat
  | CU "sys_index cmat" nat nat nat

text \<open>
  \<^verbatim>\<open>
  def qft(circ):
      circ.barrier(label="QFT-start")
      for i in range(5 // 2):
          circ.swap(clk[i], clk[4 - i])
      for j in range(5):
          circ.h(clk[j])
          for k in range(j+1, 5):
              circ.cp(pi / 2**(k-j), clk[k], clk[j])
      circ.barrier(label="QFT-end")
  \<close>
\<close>

definition qft :: "gate list" where
  "qft =
     [Barrier] @
     map (\<lambda>i. SWAP (clk i) (clk (4 - i))) [0..<5 div 2] @
     concat (map (\<lambda>j. H (clk j) # map (\<lambda>k. CP (pi / 2 ^ (k - j)) (clk k) (clk j)) [j + 1..<5])
       [0..<5]) @
     [Barrier]"

text \<open>
  \<^verbatim>\<open>
  def qft_dg(circ):
      circ.barrier(label="iQFT-start")
      for j in reversed(range(5)):
          for k in reversed(range(j+1, 5)):
              circ.cp(-pi / 2**(k-j), clk[k], clk[j])
          circ.h(clk[j])
      for i in range(5 // 2):
          circ.swap(clk[i], clk[4 - i])
      circ.barrier(label="iQFT-end")
  \<close>
\<close>

definition qft_dg :: "gate list" where
  "qft_dg =
     [Barrier] @
     concat (map (\<lambda>j. map (\<lambda>k. CP (- pi / 2 ^ (k - j)) (clk k) (clk j)) (rev [j + 1..<5]) @ [H (clk j)])
       (rev [0..<5])) @
     map (\<lambda>i. SWAP (clk i) (clk (4 - i))) [0..<5 div 2] @
     [Barrier]"

subsection \<open>What the gates do to a statevector\<close>

text \<open>
  A basis state assigns a bit to every qubit; a statevector gives every basis state its
  amplitude. The gates are Qiskit's:
  \<^item> \<open>H q\<close> is the Hadamard gate on \<open>q\<close>, \<open>X q\<close> the bit flip;
  \<^item> \<open>CP \<theta> c t\<close> multiplies the amplitude by \<open>e\<^sup>i\<^sup>\<theta>\<close> where both \<open>c\<close> and \<open>t\<close> are 1;
  \<^item> \<open>SWAP p q\<close> exchanges the two qubits;
  \<^item> \<open>MCRY \<theta> cs t\<close> applies \<open>R\<^sub>y(\<theta>) = [[cos (\<theta>/2), - sin (\<theta>/2)], [sin (\<theta>/2), cos (\<theta>/2)]]\<close>
    to \<open>t\<close> where every qubit of \<open>cs\<close> is 1;
  \<^item> \<open>CU U c t\<^sub>0 t\<^sub>1\<close> applies the 4-by-4 unitary \<open>U\<close> to the qubits \<open>t\<^sub>0\<close>, \<open>t\<^sub>1\<close> where \<open>c\<close> is 1;
    the row of \<open>U\<close> for the values \<open>(v\<^sub>1, v\<^sub>0)\<close> of \<open>(t\<^sub>1, t\<^sub>0)\<close> is \<open>2 v\<^sub>1 + v\<^sub>0\<close> (little-endian);
  \<^item> \<open>Initialize v t\<^sub>0 t\<^sub>1\<close> prepares the amplitudes \<open>v\<close> on the qubits \<open>t\<^sub>0\<close>, \<open>t\<^sub>1\<close>, which are in
    \<open>|00\<rangle>\<close> when the notebook uses it (it is the first instruction of the circuit);
  \<^item> a barrier does nothing.
\<close>

type_synonym basis = "nat \<Rightarrow> bool"
type_synonym qstate = "basis \<Rightarrow> complex"

fun apply_gate :: "gate \<Rightarrow> qstate \<Rightarrow> qstate" where
  "apply_gate Barrier \<psi> = \<psi>"
| "apply_gate (Initialize v t0 t1) \<psi> =
     (\<lambda>b. complex_of_real (v ! row_of (b t1, b t0)) * \<psi> (b(t0 := False, t1 := False)))"
| "apply_gate (CU U c t0 t1) \<psi> =
     (\<lambda>b. if b c
          then (\<Sum>s\<in>UNIV. entry U (b t1, b t0) s * \<psi> (b(t0 := snd s, t1 := fst s)))
          else \<psi> b)"
| "apply_gate (H q) \<psi> =
     (\<lambda>b. (\<psi> (b(q := False)) + (if b q then - 1 else 1) * \<psi> (b(q := True))) / complex_of_real (sqrt 2))"
| "apply_gate (X q) \<psi> = (\<lambda>b. \<psi> (b(q := \<not> b q)))"
| "apply_gate (CP \<theta> c t) \<psi> = (\<lambda>b. (if b c \<and> b t then cis \<theta> else 1) * \<psi> b)"
| "apply_gate (SWAP p q) \<psi> = (\<lambda>b. \<psi> (b(p := b q, q := b p)))"
| "apply_gate (MCRY \<theta> cs t) \<psi> =
     (\<lambda>b. if list_all b cs then
            (if b t
             then complex_of_real (sin (\<theta> / 2)) * \<psi> (b(t := False)) +
                  complex_of_real (cos (\<theta> / 2)) * \<psi> (b(t := True))
             else complex_of_real (cos (\<theta> / 2)) * \<psi> (b(t := False)) -
                  complex_of_real (sin (\<theta> / 2)) * \<psi> (b(t := True)))
          else \<psi> b)"

text \<open>Running a list of gates, the first gate first.\<close>

fun run :: "gate list \<Rightarrow> qstate \<Rightarrow> qstate" where
  "run [] \<psi> = \<psi>"
| "run (g # gs) \<psi> = run gs (apply_gate g \<psi>)"

text \<open>
  The inverse of a gate: the phase and the rotation angle negated, the unitary replaced
  by its conjugate transpose. A state preparation has none.
\<close>

fun gate_inv :: "gate \<Rightarrow> gate" where
  "gate_inv Barrier = Barrier"
| "gate_inv (Initialize v t0 t1) = Initialize v t0 t1"
| "gate_inv (CU U c t0 t1) = CU (adjoint U) c t0 t1"
| "gate_inv (H q) = H q"
| "gate_inv (X q) = X q"
| "gate_inv (CP \<theta> c t) = CP (- \<theta>) c t"
| "gate_inv (SWAP p q) = SWAP p q"
| "gate_inv (MCRY \<theta> cs t) = MCRY (- \<theta>) cs t"

text \<open>
  The gates that have an inverse: Qiskit rejects a gate whose target is one of its
  controls or that names a qubit twice, and the matrix of a \<open>CU\<close> is unitary.
\<close>

fun wf_gate :: "gate \<Rightarrow> bool" where
  "wf_gate (MCRY \<theta> cs t) = (t \<notin> set cs)"
| "wf_gate (CU U c t0 t1) = (adjoint U * U = 1 \<and> c \<noteq> t0 \<and> c \<noteq> t1 \<and> t0 \<noteq> t1)"
| "wf_gate (Initialize v t0 t1) = False"
| "wf_gate g = True"


subsection \<open>Eigenvalue inversion (cell 18)\<close>

text \<open>
  \<^verbatim>\<open>bits = format(pat, '05b')\<close>: the binary digits of \<open>pat\<close>, most significant first,
  padded with zeros on the left to at least five characters.
\<close>

definition bit_char :: "bool \<Rightarrow> char" where
  "bit_char v = (if v then CHR ''1'' else CHR ''0'')"

fun bin_rev :: "nat \<Rightarrow> string" where
  "bin_rev n = bit_char (odd n) # (if n < 2 then [] else bin_rev (n div 2))"

declare bin_rev.simps [simp del]

definition format_05b :: "nat \<Rightarrow> string" where
  "format_05b pat = (let ds = rev (bin_rev pat) in replicate (5 - length ds) CHR ''0'' @ ds)"

text \<open>\<^verbatim>\<open>clk[i]\<close>: the register has five qubits.\<close>

definition clk_at :: "nat \<Rightarrow> py_error + nat" where
  "clk_at i = (if i < 5 then Inr (clk i) else Inl IndexError)"

text \<open>
  \<^verbatim>\<open>
  for i, bit in enumerate(reversed(bits)):
      if bit == '0':
          circ.x(clk[i])
  \<close>
\<close>

fun x_gates :: "(nat \<times> char) list \<Rightarrow> py_error + gate list" where
  "x_gates [] = Inr []"
| "x_gates ((i, c) # rest) =
     (if c = CHR ''0'' then
        (case clk_at i of
           Inl e \<Rightarrow> Inl e
         | Inr q \<Rightarrow> (case x_gates rest of Inl e \<Rightarrow> Inl e | Inr gs \<Rightarrow> Inr (X q # gs)))
      else x_gates rest)"

text \<open>
  The body of the loop over the table, for one entry:
  \<^verbatim>\<open>
  theta = 2 * asin(1/lam)
  bits  = format(pat, '05b')
  (the X gates)
  circ.mcry(theta, clk, anc[0])
  (the X gates again)
  \<close>
  \<open>lam\<close> is a Python int: \<^verbatim>\<open>1/lam\<close> raises ZeroDivisionError at 0, and has modulus at
  most 1 otherwise, so \<^verbatim>\<open>asin\<close> does not raise.
\<close>

definition rotation_block :: "nat \<times> int \<Rightarrow> py_error + gate list" where
  "rotation_block item =
     (case item of (pat, lam) \<Rightarrow>
        if lam = 0 then Inl ZeroDivisionError
        else
          (let theta = 2 * arcsin (1 / real_of_int lam);
               bits = format_05b pat
           in case x_gates (enumerate 0 (rev bits)) of
                Inl e \<Rightarrow> Inl e
              | Inr xs \<Rightarrow> Inr (xs @ [MCRY theta (map clk [0..<5]) anc] @ xs)))"

text \<open>\<^verbatim>\<open>for pat, lam in phase_to_lambda.items(): ...\<close>, in the order of insertion.\<close>

fun rotations :: "(nat \<times> int) list \<Rightarrow> py_error + gate list" where
  "rotations [] = Inr []"
| "rotations (item # rest) =
     (case rotation_block item of
        Inl e \<Rightarrow> Inl e
      | Inr gs \<Rightarrow> (case rotations rest of Inl e \<Rightarrow> Inl e | Inr hs \<Rightarrow> Inr (gs @ hs)))"

text \<open>
  The stage of \<^verbatim>\<open>hhl\<close> between the barriers \<^verbatim>\<open>Rot-start\<close> and \<^verbatim>\<open>Rot-end\<close>, and the
  table \<^verbatim>\<open>phase_to_lambda = {0b00110:1, 0b10011:3, 0b00000:5}\<close>.
\<close>

definition eigenvalue_inversion :: "(nat \<times> int) list \<Rightarrow> py_error + gate list" where
  "eigenvalue_inversion table =
     (case rotations table of Inl e \<Rightarrow> Inl e | Inr gs \<Rightarrow> Inr (Barrier # gs @ [Barrier]))"

definition phase_to_lambda :: "(nat \<times> int) list" where
  "phase_to_lambda = [(6, 1), (19, 3), (0, 5)]"

subsection \<open>The eigenvalue inversion of the specification\<close>

text \<open>
  The clock register equals the pattern: clock qubit \<open>i\<close> holds bit \<open>i\<close> of the pattern.
\<close>

definition matches :: "nat \<Rightarrow> basis \<Rightarrow> bool" where
  "matches pat b = list_all (\<lambda>i. b (clk i) = bit pat i) [0..<5]"

text \<open>
  The gates for one entry: an X on every clock qubit whose pattern bit is 0, the
  rotation by \<open>2 arcsin (1 / \<lambda>)\<close> of the ancilla controlled on all five clock qubits, and
  the same X gates again.
\<close>

definition block_gates :: "nat \<times> int \<Rightarrow> gate list" where
  "block_gates item =
     (case item of (pat, lam) \<Rightarrow>
        (let xs = map (\<lambda>i. X (clk i)) (filter (\<lambda>i. \<not> bit pat i) [0..<5])
         in xs @ [MCRY (2 * arcsin (1 / real_of_int lam)) (map clk [0..<5]) anc] @ xs))"

text \<open>
  The rotation of the ancilla with \<open>sin (\<theta>/2) = 1 / \<lambda>\<close>: the amplitude \<open>1 / \<lambda>\<close> moves from
  ancilla 0 to ancilla 1.
\<close>

definition invert_on_ancilla :: "int \<Rightarrow> qstate \<Rightarrow> qstate" where
  "invert_on_ancilla lam \<psi> =
     (\<lambda>b. if b anc
          then complex_of_real (1 / real_of_int lam) * \<psi> (b(anc := False)) +
               complex_of_real (sqrt (1 - (1 / real_of_int lam)\<^sup>2)) * \<psi> (b(anc := True))
          else complex_of_real (sqrt (1 - (1 / real_of_int lam)\<^sup>2)) * \<psi> (b(anc := False)) -
               complex_of_real (1 / real_of_int lam) * \<psi> (b(anc := True)))"

text \<open>
  The basis state with ancilla \<open>a\<close>, clock pattern \<open>c\<close> and system value \<open>s\<close>, and the
  statevector that is 1 on every basis state with ancilla 0 and 0 elsewhere.
\<close>

definition basis_of :: "bool \<Rightarrow> nat \<Rightarrow> nat \<Rightarrow> basis" where
  "basis_of a c s = (\<lambda>q. if q = 0 then a else if q \<le> 5 then bit c (q - 1) else bit s (q - 6))"

definition ancilla_zero :: qstate where
  "ancilla_zero = (\<lambda>b. if b anc then 0 else 1)"

text \<open>The clock qubits of the list \<open>js\<close> flipped, as the X gates do.\<close>

definition flipped :: "nat list \<Rightarrow> basis \<Rightarrow> basis" where
  "flipped js b = (\<lambda>q. if q \<in> clk ` set js then \<not> b q else b q)"

text \<open>The rotation of the ancilla by \<open>\<theta>\<close>, and its form when \<open>\<theta> = 2 arcsin (1 / \<lambda>)\<close>.\<close>

definition rotate_ancilla :: "real \<Rightarrow> qstate \<Rightarrow> qstate" where
  "rotate_ancilla \<theta> \<psi> =
     (\<lambda>b. if b anc
          then complex_of_real (sin (\<theta> / 2)) * \<psi> (b(anc := False)) +
               complex_of_real (cos (\<theta> / 2)) * \<psi> (b(anc := True))
          else complex_of_real (cos (\<theta> / 2)) * \<psi> (b(anc := False)) -
               complex_of_real (sin (\<theta> / 2)) * \<psi> (b(anc := True)))"


subsection \<open>Phase estimation and the HHL circuit (cells 16, 18, 20, 22)\<close>

text \<open>
  \<^verbatim>\<open>circ.append(U_ops[k], [clk[k], *sysq])\<close>: the control qubit comes first, then the two
  system qubits. \<^verbatim>\<open>U_ops[k].inverse()\<close> is the instruction of the conjugate transpose.
\<close>

definition append_controlled :: "instruction \<Rightarrow> nat \<Rightarrow> gate" where
  "append_controlled ins c = (case ins of Controlled n U \<Rightarrow> CU U c (sysq 0) (sysq 1))"

definition instruction_inverse :: "instruction \<Rightarrow> instruction" where
  "instruction_inverse ins = (case ins of Controlled n U \<Rightarrow> Controlled n (adjoint U))"

text \<open>
  \<^verbatim>\<open>
  def qpe(circ):
      circ.barrier(label="QPE-start")
      circ.h(clk)
      circ.barrier(label="QPE-H")
      for k in range(5):
          circ.append(U_ops[k], [clk[k], *sysq])
      circ.barrier(label="QPE-U")
      qft_dg(circ)
      circ.barrier(label="QPE-end")
  \<close>
\<close>

definition qpe :: "instruction list \<Rightarrow> gate list" where
  "qpe ops =
     [Barrier] @ map (\<lambda>j. H (clk j)) [0..<5] @ [Barrier] @
     map (\<lambda>k. append_controlled (ops ! k) (clk k)) [0..<5] @ [Barrier] @
     qft_dg @ [Barrier]"

text \<open>
  \<^verbatim>\<open>
  def inv_qpe(circ):
      circ.barrier(label="InvQPE-start")
      qft(circ)
      for k in reversed(range(5)):
          circ.append(U_ops[k].inverse(), [clk[k], *sysq])
      circ.barrier(label="InvQPE-end")
  \<close>
\<close>

definition inv_qpe :: "instruction list \<Rightarrow> gate list" where
  "inv_qpe ops =
     [Barrier] @ qft @
     map (\<lambda>k. append_controlled (instruction_inverse (ops ! k)) (clk k)) (rev [0..<5]) @
     [Barrier]"

text \<open>
  Python's \<^verbatim>\<open>math.isclose(a, b, abs_tol=t)\<close>, with the relative tolerance at its default
  \<open>10\<^sup>-\<^sup>9\<close>.
\<close>

definition isclose :: "real \<Rightarrow> real \<Rightarrow> real \<Rightarrow> bool" where
  "isclose a b t = (\<bar>a - b\<bar> \<le> max (1 / 10 ^ 9 * max \<bar>a\<bar> \<bar>b\<bar>) t)"

text \<open>
  \<^verbatim>\<open>hhl\<close>, as the circuit that cell 22 simulates: \<^verbatim>\<open>remove_final_measurements\<close> takes the
  measurements out again, so they are not in the list. \<^verbatim>\<open>circ.initialize(b_norm, sysq)\<close>
  raises a QiskitError unless it is given four amplitudes, one per basis state of the
  two system qubits, whose squares sum to 1 within Qiskit's tolerance
  (\<^verbatim>\<open>math.isclose\<close> with \<^verbatim>\<open>abs_tol = 1e-10\<close>); the eigenvalue inversion raises as described
  above.
\<close>

definition hhl :: "instruction list \<Rightarrow> real list \<Rightarrow> (nat \<times> int) list \<Rightarrow> py_error + gate list" where
  "hhl ops bn table =
     (if length bn = 4 \<and> isclose (sum_list (map (\<lambda>t. t\<^sup>2) bn)) 1 (1 / 10 ^ 10) then
        (case eigenvalue_inversion table of
           Inl e \<Rightarrow> Inl e
         | Inr rot \<Rightarrow>
             Inr ([Barrier, Initialize bn (sysq 0) (sysq 1)] @ qpe ops @ rot @ inv_qpe ops @ [Barrier]))
      else Inl QiskitError)"

text \<open>
  \<^verbatim>\<open>Statevector.from_instruction\<close> runs the gates on \<open>|0\<dots>0\<rangle>\<close>; \<^verbatim>\<open>state.data\<close> lists the
  amplitudes by position, and the basis state at position \<open>n\<close> gives qubit \<open>k\<close> the bit
  \<open>k\<close> of \<open>n\<close>.
\<close>

definition zero_state :: qstate where
  "zero_state = (\<lambda>b. if list_ex b [0..<8] then 0 else 1)"

definition state_data :: "qstate \<Rightarrow> complex list" where
  "state_data \<psi> = map (\<lambda>n. \<psi> (bit n)) [0..<256]"

definition simulate :: "gate list \<Rightarrow> complex list" where
  "simulate gs = state_data (run gs zero_state)"

text \<open>The notebook's \<^verbatim>\<open>b_norm\<close>, as finite numbers: \<^verbatim>\<open>b_herm\<close> is \<open>(7, 9, 11, 13)\<close>.\<close>

definition b_norm_A4 :: "real list" where
  "b_norm_A4 = map (\<lambda>t. t / sqrt 420) [7, 9, 11, 13]"

text \<open>
  The amplitude that a vector of four amplitudes on the system register gives a basis
  state, and the circuit that \<^verbatim>\<open>hhl\<close> builds for the notebook's system when the table
  \<^verbatim>\<open>phase_to_lambda\<close> is emptied.
\<close>

definition amp :: "real list \<Rightarrow> basis \<Rightarrow> complex" where
  "amp bn b = complex_of_real (bn ! row_of (b 7, b 6))"

definition emptied_circuit :: "gate list" where
  "emptied_circuit =
     [Barrier, Initialize b_norm_A4 (sysq 0) (sysq 1)] @
     qpe (U_ops (gram_plus_identity 4 A4) (2 * pi / 5)) @ [Barrier, Barrier] @
     inv_qpe (U_ops (gram_plus_identity 4 A4) (2 * pi / 5)) @ [Barrier]"


section \<open>Properties of the ART cell\<close>

subsection \<open>The scenario of the notebook\<close>

lemma radians_0: "radians 0 = 0"
  by (simp add: radians_def)

lemma radians_90: "radians 90 = pi / 2"
  by (simp add: radians_def)

lemma A4_eq: "A4 = [[1, 0, 1, 0], [0, 1, 0, 1], [1, 1, 0, 0], [0, 0, 1, 1]]"
  by (simp add: A4_def build_A_def proj_row_def hit_def coords_def radians_0 radians_90 upt_rec)

lemma b4_eq: "b4 = [4, 6, 3, 7]"
  by (simp add: b4_def build_b_def proj_val_def proj_row_def hit_def coords_def
      radians_0 radians_90 phantom2_def upt_rec)

lemma zeros4: "replicate 4 0 = [0, 0, 0, 0::real]"
  by (simp add: numeral_eq_Suc)

text \<open>The first sweep lands on the phantom; every later sweep has residual 0 in each row.\<close>

lemma first_sweep: "art_rows A4 b4 1 [0..<4] [0, 0, 0, 0] = Inr [1, 2, 3, 4]"
  by (simp add: A4_eq b4_eq upt_rec art_row_def dot_def Let_def)

lemma later_sweep: "art_rows A4 b4 1 [0..<4] [1, 2, 3, 4] = Inr [1, 2, 3, 4]"
  by (simp add: A4_eq b4_eq upt_rec art_row_def dot_def Let_def)

lemma sweeps_fixed: "art_sweeps A4 b4 1 n [1, 2, 3, 4] = Inr [1, 2, 3, 4]"
  by (induction n) (simp_all add: later_sweep)

lemma sweeps_from_zero: "art_sweeps A4 b4 1 (Suc n) [0, 0, 0, 0] = Inr [1, 2, 3, 4]"
  by (simp add: first_sweep sweeps_fixed)

lemma x_art_scenario: "x_art A4 b4 iters relax = Inr [1, 2, 3, 4]"
proof -
  have ten: "iters = Suc 9" by (simp add: iters_def)
  show ?thesis
    unfolding x_art_def relax_def zeros4 ten by (rule sweeps_from_zero)
qed

text \<open>
  C1. With \<open>A4\<close> and \<open>b4\<close> as the script builds them from the phantom \<open>[[1,2],[3,4]]\<close> at
  0 and 90 degrees, ten sweeps with relaxation 1 from the zero vector return a vector
  within \<open>10\<^sup>-\<^sup>6\<close> of the flattened phantom in every component (in exact arithmetic the
  vector is the phantom itself; every intermediate value is a small integer or a half, so
  no rounding occurs in float64 either).
\<close>

theorem art_reproduces_phantom:
  "\<exists>x. x_art A4 b4 iters relax = Inr x \<and>
       list_all2 (\<lambda>u v. \<bar>u - v\<bar> < 1 / 10 ^ 6) x (concat phantom2)"
  by (simp add: x_art_scenario phantom2_def)

subsection \<open>The script's loop against the specification's sweep\<close>

lemma art_row_spec:
  assumes "i < 4" "length A = 4" "length b = 4" "length (A ! i) = length x"
  shows "art_row A b \<omega> x i = Inr (spec_update A b \<omega> i x)"
  using assms by (simp add: art_row_def spec_update_def Let_def)

lemma length_spec_update:
  "length (A ! i) = length x \<Longrightarrow> length (spec_update A b \<omega> i x) = length x"
  by (simp add: spec_update_def)

lemma art_rows_spec:
  assumes "length A = 4" "length b = 4" "list_all (\<lambda>r. length r = 4) A"
  shows "list_all (\<lambda>i. i < 4) js \<Longrightarrow> length x = 4 \<Longrightarrow>
     art_rows A b \<omega> js x = Inr (fold (spec_update A b \<omega>) js x)"
proof (induction js arbitrary: x)
  case Nil
  then show ?case by simp
next
  case (Cons j js)
  from Cons.prems have j: "j < 4" and js: "list_all (\<lambda>i. i < 4) js" by simp_all
  from assms j have len: "length (A ! j) = 4" by (simp add: list_all_length)
  with Cons.prems have eq: "length (A ! j) = length x" by simp
  have step: "art_row A b \<omega> x j = Inr (spec_update A b \<omega> j x)"
    using j assms(1,2) eq by (rule art_row_spec)
  have "length (spec_update A b \<omega> j x) = 4"
    using length_spec_update [OF eq] Cons.prems by simp
  with Cons.IH [OF js] step show ?case by simp
qed

lemma art_sweep_spec:
  assumes "length A = 4" "length b = 4" "list_all (\<lambda>r. length r = 4) A" "length x = 4"
  shows "art_rows A b \<omega> [0..<4] x = Inr (spec_sweep A b \<omega> x)"
proof -
  have "list_all (\<lambda>i. i < 4) [0..<4]" by (simp add: list_all_iff)
  from art_rows_spec [OF assms(1,2,3) this assms(4)] show ?thesis
    by (simp add: spec_sweep_def assms(1))
qed

lemma length_fold_spec_update:
  assumes "list_all (\<lambda>r. length r = n) A"
  shows "list_all (\<lambda>i. i < length A) js \<Longrightarrow> length x = n \<Longrightarrow>
     length (fold (spec_update A b \<omega>) js x) = n"
proof (induction js arbitrary: x)
  case Nil
  then show ?case by simp
next
  case (Cons j js)
  from Cons.prems have "j < length A" by simp
  with assms have "length (A ! j) = n" by (simp add: list_all_length)
  with Cons.prems have "length (A ! j) = length x" by simp
  then have "length (spec_update A b \<omega> j x) = n"
    using Cons.prems by (simp add: length_spec_update)
  with Cons show ?case by simp
qed

lemma length_spec_sweep:
  "list_all (\<lambda>r. length r = n) A \<Longrightarrow> length x = n \<Longrightarrow> length (spec_sweep A b \<omega> x) = n"
  unfolding spec_sweep_def
  by (rule length_fold_spec_update) (simp_all add: list_all_iff)

lemma art_sweeps_spec:
  assumes "length A = 4" "length b = 4" "list_all (\<lambda>r. length r = 4) A"
  shows "length x = 4 \<Longrightarrow> art_sweeps A b \<omega> N x = Inr (((spec_sweep A b \<omega>) ^^ N) x)"
proof (induction N arbitrary: x)
  case 0
  then show ?case by simp
next
  case (Suc N)
  have "length (spec_sweep A b \<omega> x) = 4"
    using assms(3) Suc.prems by (rule length_spec_sweep)
  from Suc.IH [OF this] art_sweep_spec [OF assms Suc.prems] show ?case
    by (simp add: funpow_swap1)
qed

text \<open>
  C3, as stated for every \<open>m\<close>-by-\<open>n\<close> system, fails: the script's inner loop is
  \<^verbatim>\<open>range(4)\<close> and its start vector \<^verbatim>\<open>np.zeros(4)\<close>. On the five-row system \<open>A5\<close>,
  \<open>b5\<close> the script never visits the fifth row, which a full sweep would use.
\<close>

theorem x_art_five_rows_counterexample:
  "x_art A5 b5 1 1 = Inr [1, 1, 1, 1] \<and> spec_art A5 b5 1 1 = [2, 1, 1, 1]"
  by (simp add: x_art_def spec_art_def spec_sweep_def spec_update_def art_row_def dot_def
      A5_def b5_def upt_rec Let_def zeros4)

text \<open>
  C3, amended to the shape the script is written for. For every real 4-by-4 matrix \<open>A\<close>,
  vector \<open>b\<close> of length 4, sweep count \<open>N\<close> and relaxation factor \<open>\<omega>\<close>, the script raises
  no error and returns exactly what the specification's ART returns: it starts from the
  zero vector, makes \<open>N\<close> full sweeps over the rows in ascending order, updates \<open>x\<close> by
  \<open>\<omega> ((b\<^sub>i - a\<^sub>i \<cdot> x) / \<parallel>a\<^sub>i\<parallel>\<^sup>2) a\<^sub>i\<close> at a row of positive squared norm and skips a
  row of zero norm. The result is a function of \<open>(A, b, N, \<omega>)\<close> alone.
\<close>

theorem x_art_refines_spec_4x4:
  assumes "length A = 4" "length b = 4" "list_all (\<lambda>r. length r = 4) A"
  shows "x_art A b N \<omega> = Inr (spec_art A b N \<omega>)"
proof -
  from assms(1,3) have "length (hd A) = 4" by (cases A) simp_all
  then show ?thesis
    using art_sweeps_spec [OF assms, of "replicate 4 0" \<omega> N]
    by (simp add: x_art_def spec_art_def)
qed

theorem x_art_refines_spec_4x4_witness:
  "x_art A4 b4 iters relax = Inr (spec_art A4 b4 iters relax) \<and>
   spec_art A4 b4 iters relax = [1, 2, 3, 4]"
proof -
  have a: "length A4 = 4" "length b4 = 4" "list_all (\<lambda>r. length r = 4) A4"
    by (simp_all add: A4_eq b4_eq)
  from x_art_refines_spec_4x4 [OF a, of iters relax] x_art_scenario show ?thesis by simp
qed

section \<open>Properties of the extraction cell\<close>

subsection \<open>The finite case and the zero-norm case\<close>

lemma length_sys_vec: "length (concat (sys_amps data)) = 4"
  by (simp add: sys_amps_def)

lemma sum_sq_nonneg: "0 \<le> sum_list (map (\<lambda>z. (cmod z)\<^sup>2) v)"
  by (induction v) simp_all

lemma cmod_hd_le_vnorm: "v \<noteq> [] \<Longrightarrow> cmod (v ! 0) \<le> vnorm v"
proof (cases v)
  case Nil
  then show "v \<noteq> [] \<Longrightarrow> ?thesis" by simp
next
  case (Cons z zs)
  have "(cmod z)\<^sup>2 \<le> (cmod z)\<^sup>2 + sum_list (map (\<lambda>z. (cmod z)\<^sup>2) zs)"
    using sum_sq_nonneg [of zs] by simp
  then have "sqrt ((cmod z)\<^sup>2) \<le> vnorm v"
    unfolding vnorm_def Cons by (simp only: real_sqrt_le_iff list.map sum_list.Cons)
  then show ?thesis using Cons by simp
qed

lemma vnorm_pos: "v \<noteq> [] \<Longrightarrow> Re (v ! 0) \<noteq> 0 \<Longrightarrow> 0 < vnorm v"
proof -
  assume v: "v \<noteq> []" and re: "Re (v ! 0) \<noteq> 0"
  from re have "v ! 0 \<noteq> 0" by auto
  then have "0 < cmod (v ! 0)" by simp
  with cmod_hd_le_vnorm [OF v] show ?thesis by linarith
qed

lemma normalize_vec_finite:
  "vnorm v \<noteq> 0 \<Longrightarrow> normalize_vec v = map (\<lambda>z. fin_c (z / complex_of_real (vnorm v))) v"
  by (simp add: normalize_vec_def npc_div_real_def fin_c_def)

lemma npc_mul_real: "npc_mul (fin_c z) (Fin s, Fin 0) = fin_c (z * complex_of_real s)"
  by (simp add: npc_mul_def fin_c_def np_sub_def)

lemma rescale_normalize:
  assumes "v \<noteq> []" "Re (v ! 0) \<noteq> 0"
  shows "rescale_vec (normalize_vec v) = map fin_c (scaled_amps v)"
proof -
  from assms have n: "vnorm v \<noteq> 0" using vnorm_pos by fastforce
  let ?u = "map (\<lambda>z. z / complex_of_real (vnorm v)) v"
  have nv: "normalize_vec v = map fin_c ?u"
    using n by (simp add: normalize_vec_finite)
  from assms(1) have u0: "?u ! 0 = v ! 0 / complex_of_real (vnorm v)"
    by (cases v) simp_all
  have "Re (?u ! 0) \<noteq> 0" using assms(2) n by (simp add: u0)
  moreover from assms(1) have "map fin_c ?u ! 0 = fin_c (?u ! 0)" by (cases v) simp_all
  ultimately have s: "np_div (Fin 1) (fst (map fin_c ?u ! 0)) = Fin (1 / Re (?u ! 0))"
    by (simp add: fin_c_def)
  show ?thesis
    unfolding nv rescale_vec_def s Let_def scaled_amps_def
    by (simp add: npc_mul_real)
qed

lemma reorder_map: "length w = 4 \<Longrightarrow> map (map fst) (reorder (map fin_c w)) = map (map Fin) (permuted_real w)"
  by (simp add: reorder_def permuted_real_def fin_c_def Let_def)

lemma hhl_recon_finite:
  assumes "length data = 256" "Re (concat (sys_amps data) ! 0) \<noteq> 0"
  shows "hhl_recon data = Inr (map (map Fin) (permuted_real (scaled_amps (concat (sys_amps data)))))"
proof -
  let ?v = "concat (sys_amps data)"
  have ne: "?v \<noteq> []" using length_sys_vec [of data] by (metis length_0_conv zero_neq_numeral)
  have len: "length (scaled_amps ?v) = 4" by (simp add: scaled_amps_def Let_def length_sys_vec)
  show ?thesis
    unfolding hhl_recon_def Let_def
    by (simp add: assms(1) rescale_normalize [OF ne assms(2)] reorder_map [OF len])
qed

lemma scaled_amps_0:
  assumes "v \<noteq> []" "Re (v ! 0) \<noteq> 0"
  shows "scaled_amps v ! 0 = Complex 1 (Im (v ! 0) / Re (v ! 0))"
proof -
  from assms have n: "vnorm v \<noteq> 0" using vnorm_pos by fastforce
  from assms(1) obtain z zs where v: "v = z # zs" by (cases v) auto
  with assms(2) have z: "Re z \<noteq> 0" by simp
  show ?thesis
    using n z by (simp add: scaled_amps_def Let_def v complex_eq_iff)
qed

lemma vnorm_scale: "vnorm (map (\<lambda>z. z * complex_of_real c) u) = \<bar>c\<bar> * vnorm u"
proof -
  have "sum_list (map (\<lambda>z. (cmod z)\<^sup>2) (map (\<lambda>z. z * complex_of_real c) u)) =
        c\<^sup>2 * sum_list (map (\<lambda>z. (cmod z)\<^sup>2) u)"
    by (induction u) (simp_all add: norm_mult power_mult_distrib algebra_simps)
  then show ?thesis
    by (simp add: vnorm_def real_sqrt_mult)
qed

lemma vnorm_normalized:
  assumes "vnorm v \<noteq> 0"
  shows "vnorm (map (\<lambda>z. z / complex_of_real (vnorm v)) v) = 1"
proof -
  have nn: "0 \<le> vnorm v" by (simp add: vnorm_def sum_sq_nonneg)
  have "map (\<lambda>z. z / complex_of_real (vnorm v)) v = map (\<lambda>z. z * complex_of_real (1 / vnorm v)) v"
    by simp
  then have "vnorm (map (\<lambda>z. z / complex_of_real (vnorm v)) v) = \<bar>1 / vnorm v\<bar> * vnorm v"
    by (simp only: vnorm_scale)
  with assms nn show ?thesis by simp
qed

lemma vnorm_scaled_amps:
  assumes "v \<noteq> []" "Re (v ! 0) \<noteq> 0"
  shows "vnorm (scaled_amps v) = vnorm v / \<bar>Re (v ! 0)\<bar>"
proof -
  from assms have n: "0 < vnorm v" using vnorm_pos by fastforce
  from assms(1) have u0: "map (\<lambda>z. z / complex_of_real (vnorm v)) v ! 0 = v ! 0 / complex_of_real (vnorm v)"
    by (cases v) simp_all
  have "vnorm (scaled_amps v) = \<bar>1 / (Re (v ! 0) / vnorm v)\<bar> * 1"
    unfolding scaled_amps_def Let_def vnorm_scale u0 using n
    by (simp add: vnorm_normalized)
  with n show ?thesis by simp
qed

lemma vnorm_zero_all:
  "vnorm v = 0 \<Longrightarrow> list_all (\<lambda>z. z = 0) v"
proof (induction v)
  case Nil
  then show ?case by simp
next
  case (Cons z zs)
  have a: "0 \<le> (cmod z)\<^sup>2" by simp
  have b: "0 \<le> sum_list (map (\<lambda>z. (cmod z)\<^sup>2) zs)" by (rule sum_sq_nonneg)
  from Cons.prems have "(cmod z)\<^sup>2 + sum_list (map (\<lambda>z. (cmod z)\<^sup>2) zs) = 0"
    by (simp add: vnorm_def)
  with a b have "(cmod z)\<^sup>2 = 0" "sum_list (map (\<lambda>z. (cmod z)\<^sup>2) zs) = 0" by linarith+
  then show ?case using Cons.IH by (simp add: vnorm_def)
qed

lemma normalize_zero:
  assumes "vnorm v = 0"
  shows "normalize_vec v = map (\<lambda>z. (NaN, NaN)) v"
proof -
  from vnorm_zero_all [OF assms] have "\<forall>z\<in>set v. z = 0" by (simp add: list_all_iff)
  then have "map (\<lambda>z. npc_div_real z 0) v = map (\<lambda>z. (NaN, NaN)) v"
    by (intro map_cong refl) (auto simp: npc_div_real_def)
  then show ?thesis
    by (simp add: normalize_vec_def assms)
qed

lemma hhl_recon_nan:
  assumes "length data = 256" "vnorm (concat (sys_amps data)) = 0"
  shows "hhl_recon data = Inr [[NaN, NaN], [NaN, NaN]]"
proof -
  obtain a b c d where v: "concat (sys_amps data) = [a, b, c, d]"
    by (simp add: sys_amps_def)
  show ?thesis
    unfolding hhl_recon_def Let_def normalize_zero [OF assms(2)]
    by (simp add: assms(1) v rescale_vec_def reorder_def npc_mul_def np_sub_def)
qed

lemma state_of_nth: "n < 256 \<Longrightarrow> state_of amps ! n = (case map_of amps n of Some z \<Rightarrow> z | None \<Rightarrow> 0)"
  by (simp add: state_of_def)

lemma sys_vec_ground: "concat (sys_amps ground_state) = [0, 0, 0, 0]"
  by (simp add: sys_amps_def tensor_def ground_state_def state_of_nth)

lemma anc1_ground: "postselect_anc1 ground_state = [0, 0, 0, 0]"
  by (simp add: postselect_anc1_def basis_index_def ground_state_def state_of_nth upt_rec)

lemma vnorm_ground_unit: "vnorm ground_state = 1"
proof -
  have "sum_list (map (\<lambda>z. (cmod z)\<^sup>2) ground_state) = 1"
    by (simp add: ground_state_def state_of_def upt_rec)
  then show ?thesis by (simp add: vnorm_def)
qed

subsection \<open>C8: a selected vector of norm zero\<close>

text \<open>
  C8, amended. Whenever the vector that the cell selects from a statevector of \<open>2\<^sup>8\<close>
  amplitudes has norm zero, the division by the norm yields NaN in every entry (numpy
  warns and does not raise), and the cell returns the 2-by-2 array of NaN. The cell has
  no FailedPostselection outcome.
\<close>

theorem zero_norm_returns_nan:
  assumes "length data = 256" "vnorm (concat (sys_amps data)) = 0"
  shows "hhl_recon data = Inr [[NaN, NaN], [NaN, NaN]]"
  using assms by (rule hhl_recon_nan)

theorem zero_norm_returns_nan_witness:
  "length ground_state = 256 \<and> vnorm (concat (sys_amps ground_state)) = 0 \<and>
   hhl_recon ground_state = Inr [[NaN, NaN], [NaN, NaN]]"
proof -
  have len: "length ground_state = 256" by (simp add: ground_state_def state_of_def)
  have z: "vnorm (concat (sys_amps ground_state)) = 0"
    by (simp add: sys_vec_ground vnorm_def)
  from zero_norm_returns_nan [OF len z] len z show ?thesis by simp
qed

section \<open>Properties of the rescaling in binary64\<close>

subsection \<open>Rounding\<close>

lemma rne_of_int: "rne (of_int n) = n"
  by (simp add: rne_def)

lemma rne_cases: "rne x = \<lfloor>x\<rfloor> \<or> rne x = \<lfloor>x\<rfloor> + 1"
  by (simp add: rne_def Let_def)


lemma rne_ge: "of_int n \<le> x \<Longrightarrow> n \<le> rne x"
  using rne_cases [of x] le_floor_iff [of n x] by linarith

lemma rne_le: "x \<le> of_int n \<Longrightarrow> rne x \<le> n"
proof (cases "x = of_int n")
  case True
  then show ?thesis by (simp add: rne_of_int)
next
  case False
  assume "x \<le> of_int n"
  with False have "x < of_int n" by simp
  then have "\<lfloor>x\<rfloor> < n" by (simp add: floor_less_iff)
  with rne_cases [of x] show ?thesis by linarith
qed


lemma powr_powi: "(2::real) powr real_of_int k = 2 powi k"
  by (rule powr_real_of_int') simp_all

lemma powr_powi_next: "(2::real) powr (real_of_int k + 1) = 2 powi (k + 1)"
  using powr_powi [of "k + 1"] by simp

lemma binade_nonzero: "(2::real) powi k \<le> \<bar>r\<bar> \<Longrightarrow> r \<noteq> 0"
proof
  assume "(2::real) powi k \<le> \<bar>r\<bar>" "r = 0"
  then have "(2::real) powi k \<le> 0" by simp
  moreover have "0 < (2::real) powi k" by simp
  ultimately show False by linarith
qed

lemma binade:
  assumes "2 powi k \<le> \<bar>r\<bar>" "\<bar>r\<bar> < 2 powi (k + 1)"
  shows "\<lfloor>log 2 \<bar>r\<bar>\<rfloor> = k"
proof -
  from binade_nonzero [OF assms(1)] have pos: "0 < \<bar>r\<bar>" by simp
  show ?thesis
    using assms by (simp add: floor_log_eq_powr_iff [OF pos] powr_powi powr_powi_next)
qed

lemma binade_exists:
  assumes "r \<noteq> 0"
  shows "2 powi \<lfloor>log 2 \<bar>r\<bar>\<rfloor> \<le> \<bar>r\<bar> \<and> \<bar>r\<bar> < 2 powi (\<lfloor>log 2 \<bar>r\<bar>\<rfloor> + 1)"
proof -
  from assms have pos: "0 < \<bar>r\<bar>" by simp
  have "2 powr real_of_int \<lfloor>log 2 \<bar>r\<bar>\<rfloor> \<le> \<bar>r\<bar> \<and>
        \<bar>r\<bar> < 2 powr real_of_int (\<lfloor>log 2 \<bar>r\<bar>\<rfloor> + 1)"
    by (rule iffD1 [OF floor_log_eq_powr_iff [OF pos] refl]) simp
  then show ?thesis by (simp only: powr_powi)
qed

lemma ulp64_normal:
  assumes "2 powi k \<le> \<bar>r\<bar>" "\<bar>r\<bar> < 2 powi (k + 1)" "- 1022 \<le> k"
  shows "ulp64 r = 2 powi (k - 52)"
proof -
  from assms(3) have "max (k - 52) (- 1074) = k - 52" by simp
  then show ?thesis by (simp only: ulp64_def binade [OF assms(1,2)])
qed










lemma round64_overflow:
  assumes "2 ^ 1024 \<le> \<bar>r\<bar>"
  shows "round64 r = inf_of_sign r"
proof -
  have nz: "r \<noteq> 0" using assms by auto
  define k where "k = \<lfloor>log 2 \<bar>r\<bar>\<rfloor>"
  from binade_exists [OF nz] have b: "2 powi k \<le> \<bar>r\<bar>" "\<bar>r\<bar> < 2 powi (k + 1)"
    by (simp_all add: k_def)
  have k: "1024 \<le> k"
  proof (rule ccontr)
    assume "\<not> 1024 \<le> k"
    then have "(2::real) powi (k + 1) \<le> 2 powi 1024"
      by (intro power_int_increasing) simp_all
    with b(2) assms show False by simp
  qed
  define u :: real where "u = 2 powi (k - 52)"
  have upos: "0 < u" by (simp add: u_def)
  have u: "ulp64 r = u" unfolding u_def by (rule ulp64_normal [OF b]) (use k in simp)
  have "(2::real) powi k = 2 powi ((k - 52) + 52)" by simp
  also have "\<dots> = u * 2 powi 52"
    unfolding u_def by (rule power_int_add) simp
  finally have pk: "(2::real) powi k = u * 2 ^ 52" by simp
  have "2 ^ 52 \<le> \<bar>rne (r / u)\<bar>"
  proof (cases "0 \<le> r")
    case True
    with b(1) pk have "real_of_int (2 ^ 52) \<le> r / u" using upos by (simp add: field_simps)
    from rne_ge [OF this] show ?thesis by simp
  next
    case False
    with b(1) pk have "r / u \<le> real_of_int (- (2 ^ 52))" using upos by (simp add: field_simps)
    from rne_le [OF this] show ?thesis by simp
  qed
  then have "2 ^ 52 \<le> \<bar>real_of_int (rne (r / u))\<bar>"
    by (metis of_int_abs of_int_le_iff of_int_numeral of_int_power)
  then have m: "u * 2 ^ 52 \<le> \<bar>real_of_int (rne (r / u))\<bar> * u"
    using upos by simp
  have "(2::real) ^ 1024 = 2 powi 1024" by simp
  also have "\<dots> \<le> 2 powi k"
    by (rule power_int_increasing) (use k in simp_all)
  also have "\<dots> = u * 2 ^ 52" by (rule pk)
  also have "\<dots> \<le> \<bar>real_of_int (rne (r / u))\<bar> * u" by (rule m)
  also have "\<dots> = \<bar>real_of_int (rne (r / u)) * u\<bar>"
    using upos by (simp add: abs_mult)
  finally have "2 ^ 1024 \<le> \<bar>real_of_int (rne (r / u)) * u\<bar>" .
  then show ?thesis
    unfolding round64_def Let_def u using nz by simp
qed

lemma round64_zero: "round64 0 = Fin 0"
  by (simp add: round64_def)







subsection \<open>The reference entry\<close>


lemma rescale_vec64_hd:
  "0 < length vec \<Longrightarrow>
   rescale_vec64 vec ! 0 = c128_mul (vec ! 0) (f64_div (Fin 1) (fst (vec ! 0)), Fin 0)"
  by (simp add: rescale_vec64_def Let_def)

lemma length_rescale_vec64: "length (rescale_vec64 vec) = length vec"
  by (simp add: rescale_vec64_def Let_def)

lemma reorder_ref: "length w = 4 \<Longrightarrow> map (map fst) (reorder w) ! 1 ! 1 = fst (w ! 0)"
  by (simp add: reorder_def Let_def)

lemma hhl_recon64_ref: "length vec = 4 \<Longrightarrow> hhl_recon64 vec ! 1 ! 1 = fst (rescale_vec64 vec ! 0)"
  unfolding hhl_recon64_def by (rule reorder_ref) (simp add: length_rescale_vec64)

lemma c128_mul_inf: "0 < x \<Longrightarrow> fst (c128_mul (Fin x, Fin 0) (PInf, Fin 0)) = PInf"
  by (simp add: c128_mul_def f64_sub_def f64_mul_def rounded_def np_sub_def round64_zero
      inf_of_sign_def)





lemma rescale_subnormal: "hhl_recon64 subnormal_vec ! 1 ! 1 = PInf"
proof -
  have l: "length subnormal_vec = 4" and h: "subnormal_vec ! 0 = (Fin (1 / 2 ^ 1074), Fin 0)"
    by (simp_all add: subnormal_vec_def)
  have "round64 (2 ^ 1074) = inf_of_sign (2 ^ 1074)"
    by (rule round64_overflow) simp
  then have s: "f64_div (Fin 1) (Fin (1 / 2 ^ 1074)) = PInf"
    by (simp add: f64_div_def rounded_def inf_of_sign_def)
  have "0 < length subnormal_vec" by (simp add: l)
  from rescale_vec64_hd [OF this]
  have "rescale_vec64 subnormal_vec ! 0 = c128_mul (Fin (1 / 2 ^ 1074), Fin 0) (PInf, Fin 0)"
    by (simp only: h fst_conv s)
  moreover have "fst (c128_mul (Fin (1 / 2 ^ 1074), Fin 0) (PInf, Fin 0)) = PInf"
    by (rule c128_mul_inf) simp
  ultimately show ?thesis by (simp only: hhl_recon64_ref [OF l])
qed

subsection \<open>C10: the reference pixel\<close>




section \<open>Properties of the Hermitian system\<close>

subsection \<open>Positive definiteness of \<open>A\<^sup>T A + I\<close>\<close>

lemma cnj_mult_self: "cnj z * z = complex_of_real ((cmod z)\<^sup>2)"
  by (simp only: complex_norm_square mult.commute)

lemma pd_core:
  fixes a :: "nat \<Rightarrow> nat \<Rightarrow> real" and v :: "nat \<Rightarrow> complex"
  assumes ev: "\<And>i. i < n \<Longrightarrow>
      (\<Sum>j<n. complex_of_real ((\<Sum>k<m. a k i * a k j) + (if i = j then 1 else 0)) * v j) = lam * v i"
    and nz: "\<exists>i<n. v i \<noteq> 0"
  shows "Im lam = 0 \<and> 1 \<le> Re lam"
proof -
  define N where "N = (\<Sum>i<n. (cmod (v i))\<^sup>2)"
  define w where "w k = (\<Sum>j<n. complex_of_real (a k j) * v j)" for k
  define S where "S = (\<Sum>k<m. (cmod (w k))\<^sup>2)"
  from nz obtain i0 where i0: "i0 < n" "v i0 \<noteq> 0" by blast
  have "0 < (cmod (v i0))\<^sup>2" using i0 by simp
  also have "(cmod (v i0))\<^sup>2 \<le> N"
    unfolding N_def using i0(1)
    by (intro member_le_sum) simp_all
  finally have Npos: "0 < N" .
  have Snn: "0 \<le> S" unfolding S_def by (intro sum_nonneg) simp
  have L: "(\<Sum>i<n. cnj (v i) * (\<Sum>j<n. complex_of_real ((\<Sum>k<m. a k i * a k j) + (if i = j then 1 else 0)) * v j))
        = lam * complex_of_real N"
  proof -
    have "(\<Sum>i<n. cnj (v i) * (\<Sum>j<n. complex_of_real ((\<Sum>k<m. a k i * a k j) + (if i = j then 1 else 0)) * v j))
        = (\<Sum>i<n. cnj (v i) * (lam * v i))"
      by (intro sum.cong refl) (simp only: lessThan_iff ev)
    also have "\<dots> = (\<Sum>i<n. lam * complex_of_real ((cmod (v i))\<^sup>2))"
      by (intro sum.cong refl) (simp only: mult.left_commute [of "cnj _" lam] cnj_mult_self)
    also have "\<dots> = lam * complex_of_real N"
      by (simp only: N_def sum_distrib_left of_real_sum)
    finally show ?thesis .
  qed
  have cw: "cnj (w k) = (\<Sum>i<n. cnj (v i) * complex_of_real (a k i))" for k
    by (simp add: w_def mult_ac)
  have R: "(\<Sum>i<n. cnj (v i) * (\<Sum>j<n. complex_of_real ((\<Sum>k<m. a k i * a k j) + (if i = j then 1 else 0)) * v j))
        = complex_of_real S + complex_of_real N"
  proof -
    have inner: "(\<Sum>j<n. complex_of_real ((\<Sum>k<m. a k i * a k j) + (if i = j then 1 else 0)) * v j)
        = (\<Sum>k<m. complex_of_real (a k i) * w k) + v i" if "i < n" for i
    proof -
      have tm: "complex_of_real ((\<Sum>k<m. a k i * a k j) + (if i = j then 1 else 0)) * v j
          = (\<Sum>k<m. complex_of_real (a k i) * (complex_of_real (a k j) * v j))
            + (if i = j then v j else 0)" for j
        by (simp add: sum_distrib_left sum_distrib_right algebra_simps)
      have "(\<Sum>j<n. complex_of_real ((\<Sum>k<m. a k i * a k j) + (if i = j then 1 else 0)) * v j)
          = (\<Sum>j<n. (\<Sum>k<m. complex_of_real (a k i) * (complex_of_real (a k j) * v j)))
            + (\<Sum>j<n. (if i = j then v j else 0))"
        by (simp only: tm sum.distrib)
      also have "(\<Sum>j<n. (if i = j then v j else 0)) = v i"
        using that by simp
      also have "(\<Sum>j<n. (\<Sum>k<m. complex_of_real (a k i) * (complex_of_real (a k j) * v j)))
          = (\<Sum>k<m. complex_of_real (a k i) * w k)"
        unfolding w_def by (subst sum.swap) (simp add: sum_distrib_left)
      finally show ?thesis .
    qed
    have "(\<Sum>i<n. cnj (v i) * (\<Sum>j<n. complex_of_real ((\<Sum>k<m. a k i * a k j) + (if i = j then 1 else 0)) * v j))
        = (\<Sum>i<n. cnj (v i) * ((\<Sum>k<m. complex_of_real (a k i) * w k) + v i))"
      by (intro sum.cong refl) (simp only: lessThan_iff inner)
    also have "\<dots> = (\<Sum>i<n. (\<Sum>k<m. (cnj (v i) * complex_of_real (a k i)) * w k)) + (\<Sum>i<n. cnj (v i) * v i)"
      by (simp add: algebra_simps sum.distrib sum_distrib_left)
    also have "(\<Sum>i<n. cnj (v i) * v i) = complex_of_real N"
      by (simp only: N_def cnj_mult_self of_real_sum)
    also have "(\<Sum>i<n. (\<Sum>k<m. (cnj (v i) * complex_of_real (a k i)) * w k))
        = (\<Sum>k<m. cnj (w k) * w k)"
      by (subst sum.swap) (simp add: cw sum_distrib_right)
    also have "\<dots> = complex_of_real S"
      by (simp only: S_def cnj_mult_self of_real_sum)
    finally show ?thesis .
  qed
  from L R have "lam * complex_of_real N = complex_of_real (S + N)" by simp
  with Npos have lam: "lam = complex_of_real ((S + N) / N)"
    by (simp add: field_simps)
  have "1 \<le> (S + N) / N" using Npos Snn by (simp add: field_simps)
  with lam show ?thesis by simp
qed


lemma sum_list_map2_nth:
  "length xs = length ys \<Longrightarrow>
   sum_list (map2 f xs ys) = (\<Sum>j<length xs. f (xs ! j) (ys ! j) :: 'a :: comm_monoid_add)"
proof -
  assume l: "length xs = length ys"
  have "sum_list (map2 f xs ys) = (\<Sum>j = 0..<length (map2 f xs ys). map2 f xs ys ! j)"
    by (rule sum_list_sum_nth)
  also have "\<dots> = (\<Sum>j = 0..<length xs. f (xs ! j) (ys ! j))"
    using l by (intro sum.cong) simp_all
  finally show ?thesis by (simp add: atLeast0LessThan)
qed

lemma dot_nth: "length u = length v \<Longrightarrow> dot u v = (\<Sum>j<length u. u ! j * v ! j)"
  unfolding dot_def by (rule sum_list_map2_nth)

lemma ncols_matrix: "is_matrix m n A \<Longrightarrow> ncols A = n"
  by (cases A) (simp_all add: is_matrix_def ncols_def)

lemma nrows_matrix: "is_matrix m n A \<Longrightarrow> nrows A = m"
  by (simp add: is_matrix_def nrows_def)

lemma upt4: "[0..<4] = [0, 1, 2, 3]"
  by (simp add: upt_rec)

lemma transpose_mat_4:
  assumes "is_matrix m 4 A"
  shows "transpose_mat A = map (\<lambda>j. map (\<lambda>row. row ! j) A) [0, 1, 2, 3]"
  using ncols_matrix [OF assms] by (simp add: transpose_mat_def upt4)

lemma A_herm_eq:
  assumes "is_matrix m 4 A"
  shows "A_herm A = Inr (gram_plus_identity 4 A)"
proof -
  from assms have m: "0 < m" "length A = m" by (simp_all add: is_matrix_def)
  have t: "transpose_mat A = map (\<lambda>j. map (\<lambda>row. row ! j) A) [0, 1, 2, 3]"
    by (rule transpose_mat_4 [OF assms])
  have nc: "ncols (transpose_mat A) = nrows A"
    by (simp add: t ncols_def nrows_def)
  have d: "dot (map (\<lambda>row. row ! i) A) (map (\<lambda>row. row ! j) A) = (\<Sum>k<length A. A ! k ! i * A ! k ! j)" for i j
    by (simp add: dot_nth)
  have mm: "matmul (transpose_mat A) A =
        Inr (map (\<lambda>i. map (\<lambda>j. \<Sum>k<length A. A ! k ! i * A ! k ! j) [0, 1, 2, 3]) [0, 1, 2, 3])"
    unfolding matmul_def nc by (simp add: t d)
  show ?thesis
    unfolding A_herm_def mm
    by (simp add: mat_add_def eye_def gram_plus_identity_def upt4 nrows_def ncols_def
        broadcastable_def stretch_def)
qed

lemma b_herm_eq:
  assumes "is_matrix m 4 A" "length b = m"
  shows "b_herm A b = Inr (transposed_times 4 A b)"
proof -
  from assms have m: "0 < m" "length A = m" by (simp_all add: is_matrix_def)
  have t: "transpose_mat A = map (\<lambda>j. map (\<lambda>row. row ! j) A) [0, 1, 2, 3]"
    by (rule transpose_mat_4 [OF assms(1)])
  have nc: "ncols (transpose_mat A) = length b"
    by (simp add: t ncols_def m assms(2))
  have d: "dot (map (\<lambda>row. row ! i) A) b = (\<Sum>k<length A. A ! k ! i * b ! k)" for i
    using m assms(2) by (simp add: dot_nth)
  show ?thesis
    unfolding b_herm_def matvec_def nc by (simp add: t d transposed_times_def upt4)
qed

lemma gram_nth:
  "i < n \<Longrightarrow> j < n \<Longrightarrow>
   gram_plus_identity n A ! i ! j = (\<Sum>k<length A. A ! k ! i * A ! k ! j) + (if i = j then 1 else 0)"
  by (simp add: gram_plus_identity_def)

lemma gram_shape: "0 < n \<Longrightarrow> is_matrix n n (gram_plus_identity n A)"
  by (simp add: is_matrix_def gram_plus_identity_def list_all_iff)

lemma gram_symmetric: "0 < n \<Longrightarrow> symmetric (gram_plus_identity n A)"
proof -
  assume n: "0 < n"
  have nc: "ncols (gram_plus_identity n A) = n"
    by (rule ncols_matrix [OF gram_shape [OF n]])
  have len: "length (gram_plus_identity n A) = n"
    by (simp add: gram_plus_identity_def)
  have "transpose_mat (gram_plus_identity n A) =
        map (\<lambda>j. map (\<lambda>i. gram_plus_identity n A ! i ! j) [0..<n]) [0..<n]"
    unfolding transpose_mat_def nc
    by (rule map_cong [OF refl]) (simp add: list_eq_iff_nth_eq len)
  also have "\<dots> = gram_plus_identity n A"
    by (simp add: list_eq_iff_nth_eq len gram_nth mult.commute) (simp add: gram_plus_identity_def)
  finally show ?thesis by (simp add: symmetric_def)
qed

lemma gram_eigenvalue:
  assumes "eigenpair (gram_plus_identity n A) lam v"
  shows "Im lam = 0 \<and> 1 \<le> Re lam"
proof -
  let ?H = "gram_plus_identity n A"
  have len: "length ?H = n" by (simp add: gram_plus_identity_def)
  from assms have lv: "length v = n" and nz: "list_ex (\<lambda>x. x \<noteq> 0) v"
    and ev: "cmatvec ?H v = map (\<lambda>x. lam * x) v"
    by (simp_all add: eigenpair_def len)
  have row: "(\<Sum>j<n. complex_of_real ((\<Sum>k<length A. A ! k ! i * A ! k ! j) + (if i = j then 1 else 0)) * v ! j)
      = lam * v ! i" if i: "i < n" for i
  proof -
    have lr: "length (?H ! i) = n" using i by (simp add: gram_plus_identity_def)
    have "cmatvec ?H v ! i = sum_list (map2 (\<lambda>h x. complex_of_real h * x) (?H ! i) v)"
      using i by (simp add: cmatvec_def len)
    also have "\<dots> = (\<Sum>j<n. complex_of_real (?H ! i ! j) * v ! j)"
      using sum_list_map2_nth [of "?H ! i" v "\<lambda>h x. complex_of_real h * x"] lr lv by simp
    also have "\<dots> = (\<Sum>j<n. complex_of_real ((\<Sum>k<length A. A ! k ! i * A ! k ! j) + (if i = j then 1 else 0)) * v ! j)"
      using i by (intro sum.cong refl) (simp only: lessThan_iff gram_nth)
    finally have "cmatvec ?H v ! i = (\<Sum>j<n. complex_of_real ((\<Sum>k<length A. A ! k ! i * A ! k ! j) + (if i = j then 1 else 0)) * v ! j)" .
    moreover have "cmatvec ?H v ! i = lam * v ! i"
      using i lv by (simp add: ev)
    ultimately show ?thesis by simp
  qed
  from nz lv have "\<exists>i<n. v ! i \<noteq> 0"
    by (auto simp: list_ex_iff in_set_conv_nth)
  with row show ?thesis
    by (rule pd_core [where a = "\<lambda>k i. A ! k ! i" and v = "\<lambda>i. v ! i" and m = "length A" and n = n])
qed

subsection \<open>C4 and C9: what the cell returns\<close>

lemma py_max_Max: "evs \<noteq> [] \<Longrightarrow> py_max evs = Inr (Max (set evs))"
proof (cases evs)
  case Nil
  then show "evs \<noteq> [] \<Longrightarrow> ?thesis" by simp
next
  case (Cons x xs)
  show ?thesis unfolding Cons py_max.simps by (simp only: Max.set_eq_fold)
qed

lemma b_norm_zero: "list_all (\<lambda>t. t = 0) bh \<Longrightarrow> b_norm bh = map (\<lambda>t. NaN) bh"
proof -
  assume "list_all (\<lambda>t. t = 0) bh"
  then have z: "\<forall>t\<in>set bh. t = 0" by (simp add: list_all_iff)
  then have "map (\<lambda>t. t\<^sup>2) bh = map (\<lambda>t. 0) bh" by simp
  then have "sum_list (map (\<lambda>t. t\<^sup>2) bh) = 0" by (simp only: sum_list_0)
  then have n: "norm2 bh = 0" by (simp add: norm2_def)
  from z show ?thesis
    unfolding b_norm_def n by simp
qed

lemma hermitian_system_eq:
  assumes "is_matrix m 4 A" "length b = m" "eigvals (gram_plus_identity 4 A) \<noteq> []"
  shows "hermitian_system eigvals A b =
     Inr \<lparr>setup_A = gram_plus_identity 4 A, setup_b = transposed_times 4 A b,
          setup_b_norm = b_norm (transposed_times 4 A b),
          setup_lam_max = Max (Re ` set (eigvals (gram_plus_identity 4 A))),
          setup_t0 = np_div (Fin (2 * pi)) (Fin (Max (Re ` set (eigvals (gram_plus_identity 4 A)))))\<rparr>"
proof -
  have "map Re (eigvals (gram_plus_identity 4 A)) \<noteq> []" using assms(3) by simp
  from py_max_Max [OF this] show ?thesis
    by (simp add: hermitian_system_def A_herm_eq [OF assms(1)] b_herm_eq [OF assms(1,2)])
qed

lemma lam_max_eigenvalue:
  assumes "lists_eigenvalues (gram_plus_identity n A) evs" "0 < n"
  shows "(\<exists>v. eigenpair (gram_plus_identity n A) (complex_of_real (Max (Re ` set evs))) v) \<and>
         (\<forall>lam v. eigenpair (gram_plus_identity n A) lam v \<longrightarrow> Re lam \<le> Max (Re ` set evs)) \<and>
         1 \<le> Max (Re ` set evs)"
proof -
  let ?H = "gram_plus_identity n A"
  from assms have ne: "evs \<noteq> []"
    by (auto simp: lists_eigenvalues_def gram_plus_identity_def)
  from assms(1) have ev: "lam \<in> set evs \<longleftrightarrow> (\<exists>v. eigenpair ?H lam v)" for lam
    by (simp add: lists_eigenvalues_def)
  from ne have "Max (Re ` set evs) \<in> Re ` set evs"
    by (intro Max_in) simp_all
  then obtain l where l: "l \<in> set evs" "Max (Re ` set evs) = Re l" by auto
  from l(1) ev obtain v where v: "eigenpair ?H l v" by blast
  from gram_eigenvalue [OF v] have "l = complex_of_real (Re l)" "1 \<le> Re l"
    by (simp_all add: complex_eq_iff)
  with v l(2) have 1: "\<exists>v. eigenpair ?H (complex_of_real (Max (Re ` set evs))) v"
    and 3: "1 \<le> Max (Re ` set evs)"
    by auto
  have 2: "Re lam \<le> Max (Re ` set evs)" if "eigenpair ?H lam w" for lam w
  proof -
    from that ev have "lam \<in> set evs" by blast
    then show ?thesis by (intro Max_ge) simp_all
  qed
  from 1 2 3 show ?thesis by blast
qed

text \<open>
  C4, amended to the shape the cell is written for (\<^verbatim>\<open>np.eye(4)\<close>). For every real matrix
  \<open>A\<close> of four columns and \<open>m \<ge> 1\<close> rows and every vector \<open>b\<close> of length \<open>m\<close>, the cell
  returns \<open>A\<^sub>h = A\<^sup>T A + I\<close>, which equals its transpose and whose (complex) eigenvalues all
  are real and positive; it returns \<open>b\<^sub>h = A\<^sup>T b\<close>; and, \<^verbatim>\<open>np.linalg.eigvals\<close> returning the
  eigenvalues of \<open>A\<^sub>h\<close>, \<open>\<lambda>\<^sub>m\<^sub>a\<^sub>x\<close> is the largest real part of the eigenvalues of \<open>A\<^sub>h\<close>: it
  is an eigenvalue of \<open>A\<^sub>h\<close>, no eigenvalue has a larger real part, it is positive, and
  \<open>t0 = 2 \<pi> / \<lambda>\<^sub>m\<^sub>a\<^sub>x\<close>.
\<close>

theorem hermitian_system_4_columns:
  assumes "is_matrix m 4 A" "length b = m"
    and "lists_eigenvalues (gram_plus_identity 4 A) (eigvals (gram_plus_identity 4 A))"
  shows "\<exists>s. hermitian_system eigvals A b = Inr s \<and>
           setup_A s = gram_plus_identity 4 A \<and> symmetric (setup_A s) \<and>
           (\<forall>lam v. eigenpair (setup_A s) lam v \<longrightarrow> Im lam = 0 \<and> 0 < Re lam) \<and>
           setup_b s = transposed_times 4 A b \<and>
           setup_lam_max s = Max (Re ` set (eigvals (setup_A s))) \<and>
           (\<exists>v. eigenpair (setup_A s) (complex_of_real (setup_lam_max s)) v) \<and>
           (\<forall>lam v. eigenpair (setup_A s) lam v \<longrightarrow> Re lam \<le> setup_lam_max s) \<and>
           0 < setup_lam_max s \<and>
           setup_t0 s = Fin (2 * pi / setup_lam_max s)"
proof -
  let ?H = "gram_plus_identity 4 A"
  let ?l = "Max (Re ` set (eigvals ?H))"
  have sym: "symmetric ?H" by (rule gram_symmetric) simp
  have pd: "\<forall>lam v. eigenpair ?H lam v \<longrightarrow> Im lam = 0 \<and> 0 < Re lam"
    using gram_eigenvalue [of 4 A] by fastforce
  from assms(3) have ne: "eigvals ?H \<noteq> []"
    by (auto simp: lists_eigenvalues_def gram_plus_identity_def)
  from lam_max_eigenvalue [OF assms(3) zero_less_numeral]
  have ev: "\<exists>v. eigenpair ?H (complex_of_real ?l) v"
    and top: "\<forall>lam v. eigenpair ?H lam v \<longrightarrow> Re lam \<le> ?l"
    and pos: "1 \<le> ?l"
    by simp_all
  from pos have t0: "np_div (Fin (2 * pi)) (Fin ?l) = Fin (2 * pi / ?l)" and p: "0 < ?l"
    by simp_all
  show ?thesis
    unfolding hermitian_system_eq [where eigvals = eigvals, OF assms(1,2) ne]
    using sym pd ev top p t0 by simp
qed

lemma A4_matrix: "is_matrix 4 4 A4"
  by (simp add: A4_eq is_matrix_def)

lemma gram_A4: "gram_plus_identity 4 A4 = [[3, 1, 1, 0], [1, 3, 0, 1], [1, 0, 3, 1], [0, 1, 1, 3]]"
  by (simp add: gram_plus_identity_def A4_eq upt4 lessThan_nat_numeral lessThan_Suc)

lemma tt_A4: "transposed_times 4 A4 b4 = [7, 9, 11, 13]"
  by (simp add: transposed_times_def A4_eq b4_eq upt4 lessThan_nat_numeral lessThan_Suc)

lemma tt_A4_zero: "transposed_times 4 A4 [0, 0, 0, 0] = [0, 0, 0, 0]"
  by (simp add: transposed_times_def A4_eq upt4 lessThan_nat_numeral lessThan_Suc)

lemma eigvals_A4_eigen:
  "list_all (\<lambda>l. \<exists>v. eigenpair (gram_plus_identity 4 A4) l v) (eigvals_A4 (gram_plus_identity 4 A4))"
proof -
  let ?H = "gram_plus_identity 4 A4"
  have "eigenpair ?H 5 [1, 1, 1, 1]" "eigenpair ?H 3 [1, 0, 0, - 1]" "eigenpair ?H 1 [1, - 1, - 1, 1]"
    by (simp_all add: eigenpair_def gram_A4 cmatvec_def)
  then show ?thesis unfolding eigvals_A4_def by auto
qed

lemma spectrum_A4:
  assumes "eigenpair (gram_plus_identity 4 A4) lam v"
  shows "lam = 5 \<or> lam = 3 \<or> lam = 1"
proof -
  from assms have "length v = 4" by (simp add: eigenpair_def gram_A4)
  then obtain a b c d where v: "v = [a, b, c, d]"
    by (auto simp: length_Suc_conv numeral_eq_Suc)
  from assms have nz: "a \<noteq> 0 \<or> b \<noteq> 0 \<or> c \<noteq> 0 \<or> d \<noteq> 0"
    and e1: "3 * a + (b + c) = lam * a" and e2: "a + (3 * b + d) = lam * b"
    and e3: "a + (3 * c + d) = lam * c" and e4: "b + (c + 3 * d) = lam * d"
    by (auto simp: eigenpair_def gram_A4 cmatvec_def v)
  have s: "(lam - 5) * (a + b + c + d) = 0"
    using e1 e2 e3 e4 by algebra
  have p: "(lam - 1) * (a - b - c + d) = 0"
    using e1 e2 e3 e4 by algebra
  have q: "(lam - 3) * (a - d) = 0"
    using e1 e4 by algebra
  have r: "(lam - 3) * (b - c) = 0"
    using e2 e3 by algebra
  show ?thesis
  proof (rule ccontr)
    assume "\<not> (lam = 5 \<or> lam = 3 \<or> lam = 1)"
    with s p q r have "a + b + c + d = 0" "a - b - c + d = 0" "a = d" "b = c"
      by simp_all
    then have "a = 0" "b = 0" "c = 0" "d = 0" by algebra+
    with nz show False by simp
  qed
qed

lemma eigvals_A4_spectrum:
  "lists_eigenvalues (gram_plus_identity 4 A4) (eigvals_A4 (gram_plus_identity 4 A4))"
proof -
  let ?H = "gram_plus_identity 4 A4"
  have "(lam \<in> set (eigvals_A4 ?H)) = (\<exists>v. eigenpair ?H lam v)" for lam
  proof
    assume "lam \<in> set (eigvals_A4 ?H)"
    with eigvals_A4_eigen show "\<exists>v. eigenpair ?H lam v" by (simp add: list_all_iff)
  next
    assume "\<exists>v. eigenpair ?H lam v"
    then obtain v where "eigenpair ?H lam v" ..
    from spectrum_A4 [OF this] show "lam \<in> set (eigvals_A4 ?H)"
      by (auto simp: eigvals_A4_def)
  qed
  moreover have "length (eigvals_A4 ?H) = length ?H"
    by (simp add: eigvals_A4_def gram_A4)
  ultimately show ?thesis by (simp add: lists_eigenvalues_def)
qed

theorem hermitian_system_4_columns_witness:
  "\<exists>s. hermitian_system eigvals_A4 A4 b4 = Inr s \<and>
       setup_A s = [[3, 1, 1, 0], [1, 3, 0, 1], [1, 0, 3, 1], [0, 1, 1, 3]] \<and>
       symmetric (setup_A s) \<and> setup_b s = [7, 9, 11, 13] \<and>
       setup_lam_max s = 5 \<and> eigenpair (setup_A s) 5 [1, 1, 1, 1] \<and>
       setup_t0 s = Fin (2 * pi / 5)"
proof -
  have l: "length b4 = 4" by (simp add: b4_eq)
  from hermitian_system_4_columns [where eigvals = eigvals_A4, OF A4_matrix l eigvals_A4_spectrum]
  obtain s where s: "hermitian_system eigvals_A4 A4 b4 = Inr s"
    "setup_A s = gram_plus_identity 4 A4" "symmetric (setup_A s)"
    "setup_b s = transposed_times 4 A4 b4"
    "setup_lam_max s = Max (Re ` set (eigvals_A4 (setup_A s)))"
    "setup_t0 s = Fin (2 * pi / setup_lam_max s)"
    by auto
  from s(5) have "setup_lam_max s = 5" by (simp add: eigvals_A4_def)
  moreover have "eigenpair (gram_plus_identity 4 A4) 5 [1, 1, 1, 1]"
    by (simp add: eigenpair_def gram_A4 cmatvec_def)
  ultimately show ?thesis using s by (simp add: gram_A4 tt_A4)
qed

text \<open>
  C4, as stated for every real matrix, fails: for a matrix of two columns \<open>A\<^sup>T A\<close> is
  2-by-2, and adding \<^verbatim>\<open>np.eye(4)\<close> raises ValueError.
\<close>

lemma A_herm_two_columns: "A_herm [[1, 2]] = Inl ValueError"
  by (simp add: A_herm_def matmul_def mat_add_def transpose_mat_def
      ncols_def nrows_def broadcastable_def eye_def upt_rec)

theorem hermitian_system_shape_counterexample:
  "A_herm [[1, 2]] = Inl ValueError \<and> hermitian_system eigvals_A4 [[1, 2]] [3] = Inl ValueError"
  by (simp add: hermitian_system_def A_herm_two_columns)

text \<open>
  C9, amended. For every matrix \<open>A\<close> of four columns and vector \<open>b\<close> with \<open>A\<^sup>T b = 0\<close>, the
  cell raises nothing: numpy's division \<open>0 / 0\<close> warns and yields NaN, so \<^verbatim>\<open>b_norm\<close> is the
  vector of four NaN.
\<close>

theorem zero_b_herm_gives_nan:
  assumes "is_matrix m 4 A" "length b = m" "eigvals (gram_plus_identity 4 A) \<noteq> []"
    and "list_all (\<lambda>t. t = 0) (transposed_times 4 A b)"
  shows "\<exists>s. hermitian_system eigvals A b = Inr s \<and>
           setup_b s = replicate 4 0 \<and> setup_b_norm s = replicate 4 NaN"
proof -
  have len: "length (transposed_times 4 A b) = 4" by (simp add: transposed_times_def)
  with assms(4) have z: "transposed_times 4 A b = replicate 4 0"
    by (simp add: list_eq_iff_nth_eq list_all_length)
  have "b_norm (transposed_times 4 A b) = replicate 4 NaN"
    unfolding b_norm_zero [OF assms(4)] using len by (simp add: list_eq_iff_nth_eq)
  with z show ?thesis
    unfolding hermitian_system_eq [where eigvals = eigvals, OF assms(1,2,3)] by simp
qed

text \<open>
  C9, as stated, fails for the notebook's \<open>A4\<close> with the measurements of the zero phantom:
  \<^verbatim>\<open>b_herm\<close> is zero, and the cell returns with \<^verbatim>\<open>b_norm\<close> all NaN instead of raising a
  division-by-zero error.
\<close>

theorem zero_b_herm_counterexample:
  "map_sum id setup_b (hermitian_system eigvals_A4 A4 [0, 0, 0, 0]) = Inr [0, 0, 0, 0] \<and>
   map_sum id setup_b_norm (hermitian_system eigvals_A4 A4 [0, 0, 0, 0]) = Inr [NaN, NaN, NaN, NaN]"
proof -
  have e: "eigvals_A4 (gram_plus_identity 4 A4) \<noteq> []" by (simp add: eigvals_A4_def)
  have l: "length [0, 0, 0, 0::real] = 4" by simp
  have "b_norm [0, 0, 0, 0] = [NaN, NaN, NaN, NaN]"
    using b_norm_zero [of "[0, 0, 0, 0]"] by simp
  then show ?thesis
    unfolding hermitian_system_eq [where eigvals = eigvals_A4, OF A4_matrix l e] by (simp add: tt_A4_zero)
qed

theorem zero_b_herm_gives_nan_witness:
  "\<exists>s. hermitian_system eigvals_A4 A4 [0, 0, 0, 0] = Inr s \<and>
       setup_b s = [0, 0, 0, 0] \<and> setup_b_norm s = [NaN, NaN, NaN, NaN]"
proof -
  have e: "eigvals_A4 (gram_plus_identity 4 A4) \<noteq> []" by (simp add: eigvals_A4_def)
  have l: "length [0, 0, 0, 0::real] = 4" by simp
  have z: "list_all (\<lambda>t. t = 0) (transposed_times 4 A4 [0, 0, 0, 0])" by (simp add: tt_A4_zero)
  from zero_b_herm_gives_nan [where eigvals = eigvals_A4, OF A4_matrix l e z] show ?thesis
    by (simp add: numeral_eq_Suc)
qed

section \<open>Properties of the unitary operators\<close>

subsection \<open>The exponential of \<open>i\<close> times a Hermitian matrix\<close>

lemma entry_adjoint [simp]: "entry (adjoint A) i j = cnj (entry A j i)"
  by (simp add: adjoint_def)

lemma entry_cscale [simp]: "entry (cscale c A) i j = c * entry A i j"
  by (simp add: cscale_def)

lemma adjoint_add: "adjoint (A + B) = adjoint A + adjoint B"
  by (rule cmat_eqI) simp

lemma adjoint_scaleR: "adjoint (r *\<^sub>R A) = r *\<^sub>R adjoint A"
  by (rule cmat_eqI) (simp add: scaleR_conv_of_real)

lemma adjoint_mult: "adjoint (A * B) = adjoint B * adjoint A"
  for A B :: "'n::finite cmat"
  by (rule cmat_eqI) (simp add: entry_mult mult.commute)

lemma adjoint_one: "adjoint (1 :: 'n::finite cmat) = 1"
  by (rule cmat_eqI) (auto simp: entry_one)

lemma adjoint_power: "adjoint (A ^ n) = adjoint A ^ n"
  for A :: "'n::finite cmat"
  by (induction n) (simp_all add: adjoint_one adjoint_mult power_commutes)

lemma adjoint_cscale: "adjoint (cscale c A) = cscale (cnj c) (adjoint A)"
  by (rule cmat_eqI) simp

lemma cscale_minus: "cscale (- c) A = - cscale c A"
  by (rule cmat_eqI) simp

lemma rowsum_adjoint_le: "rowsum (adjoint A) i \<le> real (card (UNIV :: 'n set)) * maxrow A"
  for A :: "'n::finite cmat"
proof -
  have "rowsum (adjoint A) i = (\<Sum>j\<in>UNIV. cmod (entry A j i))"
    by (simp add: rowsum_def)
  also have "\<dots> \<le> (\<Sum>j\<in>(UNIV::'n set). maxrow A)"
    by (intro sum_mono cmod_entry_le_maxrow)
  finally show ?thesis by simp
qed

lemma bounded_linear_adjoint: "bounded_linear (adjoint :: 'n::finite cmat \<Rightarrow> 'n cmat)"
proof (rule bounded_linear_intro [where K = "real (card (UNIV :: 'n set))"])
  fix A :: "'n cmat"
  have "maxrow (adjoint A) \<le> real (card (UNIV :: 'n set)) * maxrow A"
    by (intro maxrow_leI rowsum_adjoint_le)
  then show "norm (adjoint A) \<le> norm A * real (card (UNIV :: 'n set))"
    by (simp add: norm_cmat_def mult.commute)
qed (simp_all add: adjoint_add adjoint_scaleR)

lemma adjoint_exp: "adjoint (exp A) = exp (adjoint A)"
  for A :: "'n::finite cmat"
proof -
  have "(\<lambda>n. A ^ n /\<^sub>R fact n) sums exp A" by (rule exp_converges)
  then have "(\<lambda>n. adjoint (A ^ n /\<^sub>R fact n)) sums adjoint (exp A)"
    by (rule bounded_linear.sums [OF bounded_linear_adjoint])
  then have "(\<lambda>n. adjoint A ^ n /\<^sub>R fact n) sums adjoint (exp A)"
    by (simp add: adjoint_scaleR adjoint_power)
  moreover have "(\<lambda>n. adjoint A ^ n /\<^sub>R fact n) sums exp (adjoint A)" by (rule exp_converges)
  ultimately show ?thesis by (rule sums_unique2)
qed

lemma exp_skew_unitary:
  fixes X :: "'n::finite cmat"
  assumes "adjoint X = - X"
  shows "adjoint (exp X) * exp X = 1" "exp X * adjoint (exp X) = 1"
proof -
  have a: "adjoint (exp X) = exp (- X)" by (simp add: adjoint_exp assms)
  show "exp X * adjoint (exp X) = 1" unfolding a by (rule exp_minus_inverse)
  show "adjoint (exp X) * exp X = 1" unfolding a using exp_minus_inverse [of "- X"] by simp
qed

lemma exp_i_hermitian_unitary:
  fixes H :: "'n::finite cmat"
  assumes "adjoint H = H"
  shows "adjoint (exp (cscale (\<i> * complex_of_real t) H)) * exp (cscale (\<i> * complex_of_real t) H) = 1"
proof -
  have "adjoint (cscale (\<i> * complex_of_real t) H) = - cscale (\<i> * complex_of_real t) H"
    by (simp add: adjoint_cscale assms cscale_minus [symmetric])
  then show ?thesis by (rule exp_skew_unitary)
qed

lemma cmat_of_hermitian:
  assumes "is_matrix 4 4 A" "symmetric A"
  shows "adjoint (cmat_of A) = cmat_of A"
proof (rule cmat_eqI)
  fix i j :: sys_index
  have r: "row_of i < 4" "row_of j < 4" by (simp_all add: row_of_def of_bool_def)
  from assms(1) have nc: "ncols A = 4" by (rule ncols_matrix)
  from assms(1) have len: "length A = 4" by (simp add: is_matrix_def)
  have "transpose_mat A ! row_of i ! row_of j = A ! row_of j ! row_of i"
    using r by (simp add: transpose_mat_def nc len)
  with assms(2) have "A ! row_of i ! row_of j = A ! row_of j ! row_of i"
    by (simp add: symmetric_def)
  then show "entry (adjoint (cmat_of A)) i j = entry (cmat_of A) i j"
    by (simp add: cmat_of_def)
qed

lemma U_ops_nth:
  "k < 5 \<Longrightarrow> U_ops A t0 ! k =
     Controlled 1 (exp (cscale (\<i> * complex_of_real (2 ^ k * t0)) (cmat_of A)))"
  by (simp add: U_ops_def mult.assoc)

text \<open>
  C5, in exact arithmetic. For every real symmetric (that is, Hermitian) 4-by-4 matrix
  \<open>A\<^sub>h\<close>, positive definite or not, and every finite \<open>t0\<close>, the cell builds exactly five
  instructions; the \<open>k\<close>-th, for \<open>k = 0, \<dots>, 4\<close>, is the operator
  \<open>U\<^sub>k = exp (i A\<^sub>h 2\<^sup>k t0)\<close> with one control qubit, and \<open>U\<^sub>k\<^sup>\<dagger> U\<^sub>k\<close> is the identity.
\<close>

theorem U_ops_unitary:
  assumes "is_matrix 4 4 A" "symmetric A"
  shows "length (U_ops A t0) = 5 \<and>
         (\<forall>k<5. \<exists>U. U_ops A t0 ! k = Controlled 1 U \<and>
                     U = exp (cscale (\<i> * complex_of_real (2 ^ k * t0)) (cmat_of A)) \<and>
                     adjoint U * U = 1)"
proof -
  have h: "adjoint (cmat_of A) = cmat_of A" using assms by (rule cmat_of_hermitian)
  have "length (U_ops A t0) = 5" by (simp add: U_ops_def)
  moreover have "\<exists>U. U_ops A t0 ! k = Controlled 1 U \<and>
                     U = exp (cscale (\<i> * complex_of_real (2 ^ k * t0)) (cmat_of A)) \<and>
                     adjoint U * U = 1" if "k < 5" for k
  proof -
    have "U_ops A t0 ! k = Controlled 1 (exp (cscale (\<i> * complex_of_real (2 ^ k * t0)) (cmat_of A)))"
      using that by (rule U_ops_nth)
    moreover have "adjoint (exp (cscale (\<i> * complex_of_real (2 ^ k * t0)) (cmat_of A))) *
        exp (cscale (\<i> * complex_of_real (2 ^ k * t0)) (cmat_of A)) = 1"
      using h by (rule exp_i_hermitian_unitary)
    ultimately show ?thesis by blast
  qed
  ultimately show ?thesis by blast
qed

theorem U_ops_unitary_witness:
  "length (U_ops (gram_plus_identity 4 A4) (2 * pi / 5)) = 5 \<and>
   (\<exists>U. U_ops (gram_plus_identity 4 A4) (2 * pi / 5) ! 4 = Controlled 1 U \<and>
        U = exp (cscale (\<i> * complex_of_real (2 ^ 4 * (2 * pi / 5))) (cmat_of (gram_plus_identity 4 A4))) \<and>
        adjoint U * U = 1)"
proof -
  have m: "is_matrix 4 4 (gram_plus_identity 4 A4)" by (rule gram_shape) simp
  have s: "symmetric (gram_plus_identity 4 A4)" by (rule gram_symmetric) simp
  note t = U_ops_unitary [OF m s, of "2 * pi / 5"]
  have lt: "(4::nat) < 5" by simp
  from t have a: "length (U_ops (gram_plus_identity 4 A4) (2 * pi / 5)) = 5" by (rule conjunct1)
  from t have "\<forall>k<5. \<exists>U. U_ops (gram_plus_identity 4 A4) (2 * pi / 5) ! k = Controlled 1 U \<and>
        U = exp (cscale (\<i> * complex_of_real (2 ^ k * (2 * pi / 5))) (cmat_of (gram_plus_identity 4 A4))) \<and>
        adjoint U * U = 1" by (rule conjunct2)
  then have "4 < (5::nat) \<longrightarrow> (\<exists>U. U_ops (gram_plus_identity 4 A4) (2 * pi / 5) ! 4 = Controlled 1 U \<and>
        U = exp (cscale (\<i> * complex_of_real (2 ^ 4 * (2 * pi / 5))) (cmat_of (gram_plus_identity 4 A4))) \<and>
        adjoint U * U = 1)" by (rule spec)
  from this lt have "\<exists>U. U_ops (gram_plus_identity 4 A4) (2 * pi / 5) ! 4 = Controlled 1 U \<and>
        U = exp (cscale (\<i> * complex_of_real (2 ^ 4 * (2 * pi / 5))) (cmat_of (gram_plus_identity 4 A4))) \<and>
        adjoint U * U = 1" by (rule mp)
  with a show ?thesis by (rule conjI)
qed

section \<open>Properties of the circuit\<close>

subsection \<open>The gate lists of the Fourier transform and its inverse\<close>

lemma qft_gates:
  "qft = [Barrier, SWAP 1 5, SWAP 2 4,
          H 1, CP (pi / 2) 2 1, CP (pi / 4) 3 1, CP (pi / 8) 4 1, CP (pi / 16) 5 1,
          H 2, CP (pi / 2) 3 2, CP (pi / 4) 4 2, CP (pi / 8) 5 2,
          H 3, CP (pi / 2) 4 3, CP (pi / 4) 5 3,
          H 4, CP (pi / 2) 5 4,
          H 5, Barrier]"
  by (simp add: qft_def clk_def upt_rec)

lemma qft_dg_gates:
  "qft_dg = [Barrier, H 5,
          CP (- pi / 2) 5 4, H 4,
          CP (- pi / 4) 5 3, CP (- pi / 2) 4 3, H 3,
          CP (- pi / 8) 5 2, CP (- pi / 4) 4 2, CP (- pi / 2) 3 2, H 2,
          CP (- pi / 16) 5 1, CP (- pi / 8) 4 1, CP (- pi / 4) 3 1, CP (- pi / 2) 2 1, H 1,
          SWAP 1 5, SWAP 2 4, Barrier]"
  by (simp add: qft_dg_def clk_def upt_rec)

lemma run_append: "run (gs @ hs) \<psi> = run hs (run gs \<psi>)"
  by (induction gs arbitrary: \<psi>) simp_all

lemma sqrt2_sq: "complex_of_real (sqrt 2) * complex_of_real (sqrt 2) = 2"
  by (metis of_real_mult of_real_numeral real_sqrt_mult_self abs_numeral)

lemma H_involution: "apply_gate (H q) (apply_gate (H q) \<psi>) = \<psi>"
proof
  fix b
  have s: "complex_of_real (sqrt 2) \<noteq> 0" by simp
  show "apply_gate (H q) (apply_gate (H q) \<psi>) b = \<psi> b"
  proof (cases "b q")
    case True
    then have "b(q := True) = b" by (simp add: fun_upd_idem)
    then show ?thesis using True
      by (simp add: field_simps sqrt2_sq) 
  next
    case False
    then have "b(q := False) = b" by (simp add: fun_upd_idem)
    then show ?thesis using False
      by (simp add: field_simps sqrt2_sq)
  qed
qed

lemma sin_cos_sq: "complex_of_real (sin x) * complex_of_real (sin x) + complex_of_real (cos x) * complex_of_real (cos x) = 1"
proof -
  have "sin x * sin x + cos x * cos x = 1"
    using sin_cos_squared_add [of x] by (simp add: power2_eq_square)
  then have "complex_of_real (sin x * sin x + cos x * cos x) = 1" by simp
  then show ?thesis by (simp only: of_real_add of_real_mult)
qed

lemma rot_cancel:
  "z * (complex_of_real (cos x) * complex_of_real (cos x)) +
   z * (complex_of_real (sin x) * complex_of_real (sin x)) = z"
proof -
  have "z * (complex_of_real (cos x) * complex_of_real (cos x)) +
        z * (complex_of_real (sin x) * complex_of_real (sin x)) =
        z * (complex_of_real (sin x) * complex_of_real (sin x) + complex_of_real (cos x) * complex_of_real (cos x))"
    by (simp add: algebra_simps)
  then show ?thesis by (simp only: sin_cos_sq mult_1_right)
qed

lemma list_all_upd: "t \<notin> set cs \<Longrightarrow> list_all (b(t := x)) cs = list_all b cs"
  by (induction cs) auto

lemma MCRY_inverse:
  assumes "t \<notin> set cs"
  shows "apply_gate (MCRY (- \<theta>) cs t) (apply_gate (MCRY \<theta> cs t) \<psi>) = \<psi>"
proof
  fix b
  let ?s = "complex_of_real (sin (\<theta> / 2))" and ?c = "complex_of_real (cos (\<theta> / 2))"
  have sc: "?s * ?s + ?c * ?c = 1" by (rule sin_cos_sq)
  show "apply_gate (MCRY (- \<theta>) cs t) (apply_gate (MCRY \<theta> cs t) \<psi>) b = \<psi> b"
  proof (cases "list_all b cs")
    case False
    then show ?thesis by simp
  next
    case True
    show ?thesis
    proof (cases "b t")
      case True
      then have e: "b(t := True) = b" by (simp add: fun_upd_idem)
      show ?thesis using True \<open>list_all b cs\<close>
        by (simp add: list_all_upd [OF assms] e algebra_simps rot_cancel)
    next
      case False
      then have e: "b(t := False) = b" by (simp add: fun_upd_idem)
      show ?thesis using False \<open>list_all b cs\<close>
        by (simp add: list_all_upd [OF assms] e algebra_simps rot_cancel)
    qed
  qed
qed

lemma CU_inverse:
  assumes u: "adjoint U * U = 1" and q: "c \<noteq> t0" "c \<noteq> t1" "t0 \<noteq> t1"
  shows "apply_gate (CU (adjoint U) c t0 t1) (apply_gate (CU U c t0 t1) \<psi>) = \<psi>"
proof
  fix b
  show "apply_gate (CU (adjoint U) c t0 t1) (apply_gate (CU U c t0 t1) \<psi>) b = \<psi> b"
  proof (cases "b c")
    case False
    then show ?thesis by simp
  next
    case True
    define upd where "upd s = b(t0 := snd s, t1 := fst s)" for s :: sys_index
    have inner: "apply_gate (CU U c t0 t1) \<psi> (upd s) = (\<Sum>r\<in>UNIV. entry U s r * \<psi> (upd r))" for s
      using True q by (simp add: upd_def)
    have "apply_gate (CU (adjoint U) c t0 t1) (apply_gate (CU U c t0 t1) \<psi>) b =
          (\<Sum>s\<in>UNIV. entry (adjoint U) (b t1, b t0) s * (\<Sum>r\<in>UNIV. entry U s r * \<psi> (upd r)))"
    proof -
      have "apply_gate (CU (adjoint U) c t0 t1) \<phi> b =
            (\<Sum>s\<in>UNIV. entry (adjoint U) (b t1, b t0) s * \<phi> (upd s))" for \<phi>
        using True by (simp add: upd_def)
      then show ?thesis by (simp only: inner)
    qed
    also have "\<dots> = (\<Sum>s\<in>UNIV. \<Sum>r\<in>UNIV. entry (adjoint U) (b t1, b t0) s * entry U s r * \<psi> (upd r))"
      by (simp only: sum_distrib_left mult.assoc)
    also have "\<dots> = (\<Sum>r\<in>UNIV. \<Sum>s\<in>UNIV. entry (adjoint U) (b t1, b t0) s * entry U s r * \<psi> (upd r))"
      by (rule sum.swap)
    also have "\<dots> = (\<Sum>r\<in>UNIV. (\<Sum>s\<in>UNIV. entry (adjoint U) (b t1, b t0) s * entry U s r) * \<psi> (upd r))"
      by (simp only: sum_distrib_right)
    also have "\<dots> = (\<Sum>r\<in>UNIV. entry (adjoint U * U) (b t1, b t0) r * \<psi> (upd r))"
      by (simp only: entry_mult)
    also have "\<dots> = (\<Sum>r\<in>UNIV. (if (b t1, b t0) = r then \<psi> (upd r) else 0))"
      unfolding u entry_one by (intro sum.cong refl) simp
    also have "\<dots> = \<psi> (upd (b t1, b t0))"
      by simp
    also have "upd (b t1, b t0) = b"
      by (simp add: upd_def)
    finally show ?thesis .
  qed
qed

lemma gate_inv_cancels: "wf_gate g \<Longrightarrow> apply_gate (gate_inv g) (apply_gate g \<psi>) = \<psi>"
proof (cases g)
  case (H q)
  then show ?thesis by (simp only: gate_inv.simps H_involution)
next
  case (CP \<theta> c t)
  have "cis (- \<theta>) * cis \<theta> = 1" by (simp add: cis_mult)
  then show ?thesis unfolding CP by (auto simp: fun_eq_iff)
next
  case (SWAP p q)
  have "(b(p := b q, q := b p))(p := (b(p := b q, q := b p)) q, q := (b(p := b q, q := b p)) p) = b" for b :: basis
    by (auto simp: fun_eq_iff)
  then show ?thesis unfolding SWAP by (simp add: fun_eq_iff)
next
  case (MCRY \<theta> cs t)
  assume "wf_gate g"
  then have "t \<notin> set cs" by (simp add: MCRY)
  then show ?thesis unfolding MCRY gate_inv.simps by (rule MCRY_inverse)
next
  case (CU U c t0 t1)
  assume "wf_gate g"
  then have "adjoint U * U = 1" "c \<noteq> t0" "c \<noteq> t1" "t0 \<noteq> t1" by (simp_all add: CU)
  then show ?thesis unfolding CU gate_inv.simps by (rule CU_inverse)
qed (simp_all add: fun_eq_iff)

lemma run_inverse:
  "list_all wf_gate gs \<Longrightarrow> run (rev (map gate_inv gs)) (run gs \<psi>) = \<psi>"
proof (induction gs arbitrary: \<psi>)
  case Nil
  then show ?case by simp
next
  case (Cons g gs)
  then have "run (rev (map gate_inv gs)) (run gs (apply_gate g \<psi>)) = apply_gate g \<psi>" by simp
  with Cons.prems show ?case by (simp add: run_append gate_inv_cancels)
qed

lemma swaps_commute:
  "apply_gate (SWAP 1 5) (apply_gate (SWAP 2 4) \<psi>) = apply_gate (SWAP 2 4) (apply_gate (SWAP 1 5) \<psi>)"
proof
  fix b :: basis
  have "b(2 := b 4, 4 := b 2, 1 := b 5, 5 := b 1) = b(1 := b 5, 5 := b 1, 2 := b 4, 4 := b 2)"
    by (auto simp: fun_eq_iff)
  then show "apply_gate (SWAP 1 5) (apply_gate (SWAP 2 4) \<psi>) b = apply_gate (SWAP 2 4) (apply_gate (SWAP 1 5) \<psi>) b"
    by simp
qed

lemma run_qft_dg: "run qft_dg \<psi> = run (rev (map gate_inv qft)) \<psi>"
proof -
  have "run [SWAP 1 5, SWAP 2 4, Barrier] \<phi> = run [SWAP 2 4, SWAP 1 5, Barrier] \<phi>" for \<phi>
    using swaps_commute [of \<phi>] by simp
  then show ?thesis
    unfolding qft_gates qft_dg_gates by simp
qed

text \<open>
  C6. For every statevector (normalised or not), running the gates of \<^verbatim>\<open>qft\<close> (the swaps
  of clock qubits 0, 4 and 1, 3 first, then for each clock qubit \<open>j\<close> in ascending order a
  Hadamard and the controlled phases \<open>\<pi> / 2\<^sup>k\<^sup>-\<^sup>j\<close> from every higher qubit \<open>k\<close>) and then
  the gates of \<^verbatim>\<open>qft_dg\<close> (the same gates in reverse order with negated angles, the swaps
  last) gives the statevector back, exactly.
\<close>

theorem qft_round_trip: "run (qft @ qft_dg) \<psi> = \<psi>"
proof -
  have "list_all wf_gate qft" by (simp add: qft_gates)
  then show ?thesis
    unfolding run_append run_qft_dg by (rule run_inverse)
qed


section \<open>Properties of the eigenvalue inversion\<close>


subsection \<open>The digits of the pattern\<close>

lemma bin_rev_nth: "i < length (bin_rev n) \<Longrightarrow> bin_rev n ! i = bit_char (bit n i)"
proof (induction n arbitrary: i rule: bin_rev.induct)
  case (1 n)
  show ?case
  proof (cases i)
    case 0
    then show ?thesis by (subst bin_rev.simps) (simp add: bit_0)
  next
    case (Suc j)
    with "1.prems" have big: "\<not> n < 2" and j: "j < length (bin_rev (n div 2))"
      by (subst (asm) bin_rev.simps, simp split: if_splits)+
    from "1.IH" [OF big j] show ?thesis
      unfolding Suc by (subst bin_rev.simps) (simp add: big bit_Suc)
  qed
qed

lemma bin_rev_bound: "n < 2 ^ length (bin_rev n)"
proof (induction n rule: bin_rev.induct)
  case (1 n)
  show ?case
  proof (cases "n < 2")
    case True
    then show ?thesis by (subst bin_rev.simps) simp
  next
    case False
    from "1.IH" [OF False] have "n div 2 < 2 ^ length (bin_rev (n div 2))" .
    then have "n < 2 * 2 ^ length (bin_rev (n div 2))" by linarith
    then show ?thesis by (subst bin_rev.simps) (simp add: False)
  qed
qed

lemma bin_rev_length: "0 < k \<Longrightarrow> n < 2 ^ k \<Longrightarrow> length (bin_rev n) \<le> k"
proof (induction n arbitrary: k rule: bin_rev.induct)
  case (1 n)
  show ?case
  proof (cases "n < 2")
    case True
    then show ?thesis using "1.prems" by (subst bin_rev.simps) simp
  next
    case False
    from "1.prems" obtain k' where k: "k = Suc k'" by (cases k) auto
    with "1.prems" False have "0 < k'" by (cases k') auto
    moreover from "1.prems" k have "n div 2 < 2 ^ k'" by simp
    ultimately have "length (bin_rev (n div 2)) \<le> k'" using "1.IH" [OF False] by blast
    then show ?thesis unfolding k by (subst bin_rev.simps) (simp add: False)
  qed
qed

lemma bit_beyond: "(n::nat) < 2 ^ k \<Longrightarrow> k \<le> i \<Longrightarrow> \<not> bit n i"
proof -
  assume a: "n < 2 ^ k" "k \<le> i"
  then have "(2::nat) ^ k \<le> 2 ^ i" by simp
  with a have "n < 2 ^ i" by linarith
  then show ?thesis by (simp add: bit_iff_odd)
qed

lemma rev_format_05b:
  assumes "pat < 32"
  shows "rev (format_05b pat) = map (\<lambda>i. bit_char (bit pat i)) [0..<5]"
proof -
  let ?ds = "bin_rev pat"
  from assms have "pat < 2 ^ 5" by simp
  then have len: "length ?ds \<le> 5" by (intro bin_rev_length) simp_all
  have r: "rev (format_05b pat) = ?ds @ replicate (5 - length ?ds) CHR ''0''"
    by (simp add: format_05b_def Let_def)
  show ?thesis
  proof (rule nth_equalityI)
    show "length (rev (format_05b pat)) = length (map (\<lambda>i. bit_char (bit pat i)) [0..<5])"
      using len by (simp add: r)
  next
    fix i
    assume "i < length (rev (format_05b pat))"
    with len have i: "i < 5" by (simp add: r)
    show "rev (format_05b pat) ! i = map (\<lambda>i. bit_char (bit pat i)) [0..<5] ! i"
    proof (cases "i < length ?ds")
      case True
      then show ?thesis using i by (simp add: r nth_append bin_rev_nth)
    next
      case False
      then have "\<not> bit pat i" using bin_rev_bound [of pat] by (intro bit_beyond [of pat "length ?ds"]) simp_all
      then show ?thesis using i False len by (simp add: r nth_append bit_char_def)
    qed
  qed
qed

lemma enumerate_map_upt: "enumerate 0 (map f [0..<n]) = map (\<lambda>i. (i, f i)) [0..<n]"
  by (simp add: enumerate_eq_zip zip_map2 zip_same_conv_map)

lemma x_gates_filter:
  "list_all (\<lambda>i. i < 5) js \<Longrightarrow>
   x_gates (map (\<lambda>i. (i, bit_char (v i))) js) = Inr (map (\<lambda>i. X (clk i)) (filter (\<lambda>i. \<not> v i) js))"
  by (induction js) (simp_all add: bit_char_def clk_at_def)

lemma rotation_block_eq:
  assumes "pat < 32" "lam \<noteq> 0"
  shows "rotation_block (pat, lam) = Inr (block_gates (pat, lam))"
proof -
  have "list_all (\<lambda>i. i < 5) [0..<5]" by (simp add: list_all_iff)
  from x_gates_filter [OF this, of "bit pat"] show ?thesis
    using assms(2)
    by (simp add: rotation_block_def block_gates_def Let_def rev_format_05b [OF assms(1)]
        enumerate_map_upt)
qed

lemma rotations_eq:
  "list_all (\<lambda>(pat, lam). pat < 32 \<and> lam \<noteq> 0) table \<Longrightarrow>
   rotations table = Inr (concat (map block_gates table))"
  by (induction table) (auto simp: rotation_block_eq)


subsection \<open>What one block does\<close>



lemma clk_inj: "clk i = clk j \<longleftrightarrow> i = j"
  by (simp add: clk_def)

lemma run_x_gates:
  "distinct js \<Longrightarrow> run (map (\<lambda>i. X (clk i)) js) \<psi> = (\<lambda>b. \<psi> (flipped js b))"
proof (induction js arbitrary: \<psi>)
  case Nil
  then show ?case by (simp add: flipped_def)
next
  case (Cons j js)
  then have d: "distinct js" and nj: "j \<notin> set js" by simp_all
  have "(flipped js b)(clk j := \<not> flipped js b (clk j)) = flipped (j # js) b" for b
    using nj by (auto simp: flipped_def fun_eq_iff clk_inj)
  then show ?case
    by (simp add: Cons.IH [OF d])
qed

lemma flipped_twice: "flipped js (flipped js b) = b"
  by (auto simp: flipped_def fun_eq_iff)

lemma flipped_anc: "flipped js b anc = b anc"
  by (auto simp: flipped_def anc_def clk_def)

lemma flipped_upd_anc: "flipped js (b(anc := x)) = (flipped js b)(anc := x)"
  by (auto simp: flipped_def fun_eq_iff anc_def clk_def)

lemma clk_image: "clk q \<in> clk ` S \<longleftrightarrow> q \<in> S"
  by (auto simp: clk_def)

lemma controls_after_flip:
  "list_all (flipped (filter (\<lambda>i. \<not> bit pat i) [0..<5]) b) (map clk [0..<5]) = matches pat b"
  by (auto simp: matches_def list_all_iff flipped_def clk_image)

lemma run_xs_mcry_xs:
  assumes "distinct js" "list_all (flipped js b) cs = m"
  shows "run (map (\<lambda>i. X (clk i)) js @ [MCRY \<theta> cs anc] @ map (\<lambda>i. X (clk i)) js) \<psi> b =
         (if m then rotate_ancilla \<theta> \<psi> b else \<psi> b)"
  using assms(2)
  by (simp add: run_append run_x_gates [OF assms(1)] rotate_ancilla_def flipped_anc
      flipped_upd_anc [symmetric] flipped_twice)

lemma run_block:
  "run (block_gates (pat, lam)) \<psi> b =
     (if matches pat b then rotate_ancilla (2 * arcsin (1 / real_of_int lam)) \<psi> b else \<psi> b)"
proof -
  have d: "distinct (filter (\<lambda>i. \<not> bit pat i) [0..<5])" by simp
  show ?thesis
    unfolding block_gates_def Let_def prod.case
    by (rule run_xs_mcry_xs [OF d controls_after_flip])
qed

lemma rotate_is_invert:
  assumes "lam \<noteq> 0"
  shows "rotate_ancilla (2 * arcsin (1 / real_of_int lam)) \<psi> = invert_on_ancilla lam \<psi>"
proof -
  from assms have "1 \<le> \<bar>real_of_int lam\<bar>" by (simp add: abs_if)
  then have b: "\<bar>1 / real_of_int lam\<bar> \<le> 1" by (simp add: field_simps)
  then have b2: "- 1 \<le> 1 / real_of_int lam" "1 / real_of_int lam \<le> 1" by linarith+
  have half: "2 * arcsin (1 / real_of_int lam) / 2 = arcsin (1 / real_of_int lam)" by simp
  have s: "sin (arcsin (1 / real_of_int lam)) = 1 / real_of_int lam"
    using b2 by (rule sin_arcsin)
  have c: "cos (arcsin (1 / real_of_int lam)) = sqrt (1 - (1 / real_of_int lam)\<^sup>2)"
    using b2 by (rule cos_arcsin)
  show ?thesis
    unfolding rotate_ancilla_def invert_on_ancilla_def half s c by (rule refl)
qed


subsection \<open>The whole table\<close>

lemma matches_upd_anc: "matches pat (b(anc := x)) = matches pat b"
  by (simp add: matches_def anc_def clk_def)

lemma matches_unique:
  assumes "matches p b" "matches p' b" "p < 32" "p' < 32"
  shows "p = p'"
proof (rule bit_eqI)
  fix i
  show "bit p i = bit p' i"
  proof (cases "i < 5")
    case True
    with assms(1,2) show ?thesis by (auto simp: matches_def list_all_iff)
  next
    case False
    from assms(3,4) have "p < 2 ^ 5" "p' < 2 ^ 5" by simp_all
    with False show ?thesis by (simp add: bit_beyond [of _ 5])
  qed
qed

lemma run_blocks:
  assumes "distinct (map fst table)" "list_all (\<lambda>(pat, lam). pat < 32 \<and> lam \<noteq> 0) table"
  shows "run (concat (map block_gates table)) \<psi> b =
         (case find (\<lambda>(pat, lam). matches pat b) table of
            None \<Rightarrow> \<psi> b
          | Some (pat, lam) \<Rightarrow> invert_on_ancilla lam \<psi> b)"
  using assms
proof (induction table arbitrary: \<psi>)
  case Nil
  then show ?case by simp
next
  case (Cons item table)
  obtain pat lam where item: "item = (pat, lam)" by (cases item)
  from Cons.prems item have d: "distinct (map fst table)" and fresh: "pat \<notin> fst ` set table"
    and ok: "list_all (\<lambda>(pat, lam). pat < 32 \<and> lam \<noteq> 0) table" and pat: "pat < 32" and lam: "lam \<noteq> 0"
    by simp_all
  let ?\<phi> = "run (block_gates (pat, lam)) \<psi>"
  have IH: "run (concat (map block_gates table)) ?\<phi> b =
         (case find (\<lambda>(pat, lam). matches pat b) table of
            None \<Rightarrow> ?\<phi> b
          | Some (pat, lam) \<Rightarrow> invert_on_ancilla lam ?\<phi> b)"
    by (rule Cons.IH [OF d ok])
  show ?case
  proof (cases "matches pat b")
    case True
    have "find (\<lambda>(pat, lam). matches pat b) table = None"
    proof (rule ccontr)
      assume "find (\<lambda>(pat, lam). matches pat b) table \<noteq> None"
      then obtain p l where f: "find (\<lambda>(pat, lam). matches pat b) table = Some (p, l)" by auto
      then have m: "matches p b" and mem: "(p, l) \<in> set table"
        by (auto simp: find_Some_iff in_set_conv_nth)
      from mem ok have "p < 32" by (auto simp: list_all_iff)
      with True m pat have "pat = p" by (intro matches_unique [of pat b p])
      with mem fresh show False by force
    qed
    with True show ?thesis
      by (simp add: item run_append IH run_block rotate_is_invert [OF lam])
  next
    case False
    then have same: "?\<phi> b' = \<psi> b'" if "b' = b(anc := x)" for b' x
      using that by (simp add: run_block matches_upd_anc)
    have "?\<phi> (b(anc := x)) = \<psi> (b(anc := x))" for x
      by (rule same) simp
    moreover have "?\<phi> b = \<psi> b" using False by (simp add: run_block)
    ultimately have "invert_on_ancilla l ?\<phi> b = invert_on_ancilla l \<psi> b" for l
      by (simp add: invert_on_ancilla_def)
    with False \<open>?\<phi> b = \<psi> b\<close> show ?thesis
      by (simp add: item run_append IH split: option.split)
  qed
qed


lemma eigenvalue_inversion_eq:
  assumes "list_all (\<lambda>(pat, lam). pat < 32 \<and> lam \<noteq> 0) table"
  shows "eigenvalue_inversion table = Inr (Barrier # concat (map block_gates table) @ [Barrier])"
  by (simp add: eigenvalue_inversion_def rotations_eq [OF assms])

text \<open>
  C7. For every table of distinct five-bit patterns with nonzero \<open>\<lambda>\<close> (the default table
  \<open>00110 \<mapsto> 1\<close>, \<open>10011 \<mapsto> 3\<close>, \<open>00000 \<mapsto> 5\<close> is one), the stage raises nothing and appends,
  between two barriers and entry by entry in the table's order, an X on exactly the clock
  qubits whose pattern bit is 0, the rotation by \<open>2 arcsin (1 / \<lambda>)\<close> of the ancilla
  controlled on all five clock qubits, and the same X gates again. On a basis state whose
  clock register equals the pattern of an entry, the amplitude \<open>1 / \<lambda>\<close> of the ancilla-0
  state moves to ancilla 1 (\<open>invert_on_ancilla\<close>); on a basis state whose clock pattern
  is not in the table the amplitude is unchanged.
\<close>

theorem eigenvalue_inversion_effect:
  assumes "distinct (map fst table)" "list_all (\<lambda>(pat, lam). pat < 32 \<and> lam \<noteq> 0) table"
  shows "\<exists>gs. eigenvalue_inversion table = Inr gs \<and>
            gs = Barrier # concat (map block_gates table) @ [Barrier] \<and>
            (\<forall>\<psi> b. run gs \<psi> b =
               (case find (\<lambda>(pat, lam). matches pat b) table of
                  None \<Rightarrow> \<psi> b
                | Some (pat, lam) \<Rightarrow> invert_on_ancilla lam \<psi> b))"
proof -
  have "run (Barrier # concat (map block_gates table) @ [Barrier]) \<psi> b =
        run (concat (map block_gates table)) \<psi> b" for \<psi> b
    by (simp add: run_append)
  then show ?thesis
    by (simp add: eigenvalue_inversion_eq [OF assms(2)] run_blocks [OF assms])
qed

lemma matches_basis_of:
  assumes "p < 32" "c < 32"
  shows "matches p (basis_of a c s) \<longleftrightarrow> p = c"
proof
  assume m: "matches p (basis_of a c s)"
  have "bit p i = bit c i" for i
  proof (cases "i < 5")
    case True
    with m show ?thesis by (auto simp: matches_def list_all_iff basis_of_def clk_def)
  next
    case False
    from assms have "p < 2 ^ 5" "c < 2 ^ 5" by simp_all
    with False show ?thesis by (simp add: bit_beyond [of _ 5])
  qed
  then show "p = c" by (rule bit_eqI)
next
  assume "p = c"
  then show "matches p (basis_of a c s)"
    by (simp add: matches_def list_all_iff basis_of_def clk_def)
qed

lemma invert_ancilla_zero:
  "invert_on_ancilla lam ancilla_zero (basis_of True c s) = complex_of_real (1 / real_of_int lam)"
  by (simp add: invert_on_ancilla_def ancilla_zero_def basis_of_def anc_def)

theorem eigenvalue_inversion_effect_witness:
  "\<exists>gs. eigenvalue_inversion phase_to_lambda = Inr gs \<and>
        run gs ancilla_zero (basis_of True 6 0) = 1 \<and>
        run gs ancilla_zero (basis_of True 19 0) = 1 / 3 \<and>
        run gs ancilla_zero (basis_of True 0 0) = 1 / 5 \<and>
        run gs ancilla_zero (basis_of True 7 0) = 0 \<and>
        run gs ancilla_zero (basis_of False 7 0) = 1"
proof -
  have d: "distinct (map fst phase_to_lambda)"
    and ok: "list_all (\<lambda>(pat, lam). pat < 32 \<and> lam \<noteq> 0) phase_to_lambda"
    by (simp_all add: phase_to_lambda_def)
  from eigenvalue_inversion_effect [OF d ok] obtain gs where
    gs: "eigenvalue_inversion phase_to_lambda = Inr gs"
    and eff: "\<And>\<psi> b. run gs \<psi> b =
               (case find (\<lambda>(pat, lam). matches pat b) phase_to_lambda of
                  None \<Rightarrow> \<psi> b
                | Some (pat, lam) \<Rightarrow> invert_on_ancilla lam \<psi> b)"
    by blast
  have "run gs ancilla_zero (basis_of True 6 0) = 1"
    "run gs ancilla_zero (basis_of True 19 0) = 1 / 3"
    "run gs ancilla_zero (basis_of True 0 0) = 1 / 5"
    "run gs ancilla_zero (basis_of True 7 0) = 0"
    "run gs ancilla_zero (basis_of False 7 0) = 1"
    by (simp_all add: eff phase_to_lambda_def matches_basis_of invert_ancilla_zero)
      (simp_all add: ancilla_zero_def basis_of_def anc_def)
  with gs show ?thesis by blast
qed

section \<open>Properties of the whole circuit\<close>

subsection \<open>Phase estimation undone\<close>

lemma upt5: "[0..<5] = [0, 1, 2, 3, 4]"
  by (simp add: upt_rec)


lemma swaps_commute2:
  "run [SWAP 2 4, SWAP 1 5] \<phi> = run [SWAP 1 5, SWAP 2 4] \<phi>"
  using swaps_commute [of \<phi>] by simp

lemma run_qft_after_dg: "run qft (run qft_dg \<psi>) = \<psi>"
proof -
  have w: "list_all wf_gate qft_dg" by (simp add: qft_dg_gates)
  have "run qft \<phi> = run (rev (map gate_inv qft_dg)) \<phi>" for \<phi>
    unfolding qft_gates qft_dg_gates using swaps_commute [of \<phi>] by simp
  then show ?thesis by (simp only: run_inverse [OF w])
qed

lemma ops_wf:
  assumes "is_matrix 4 4 A" "symmetric A" "k < 5"
  shows "wf_gate (append_controlled (U_ops A t0 ! k) (clk k))"
    and "gate_inv (append_controlled (U_ops A t0 ! k) (clk k)) =
         append_controlled (instruction_inverse (U_ops A t0 ! k)) (clk k)"
proof -
  have h: "adjoint (cmat_of A) = cmat_of A" using assms(1,2) by (rule cmat_of_hermitian)
  have u: "adjoint (exp (cscale (\<i> * complex_of_real (2 ^ k * t0)) (cmat_of A))) *
        exp (cscale (\<i> * complex_of_real (2 ^ k * t0)) (cmat_of A)) = 1"
    using h by (rule exp_i_hermitian_unitary)
  show "wf_gate (append_controlled (U_ops A t0 ! k) (clk k))"
    unfolding U_ops_nth [OF assms(3)] append_controlled_def instruction.case wf_gate.simps
    using u assms(3) by (simp only: clk_def sysq_def) simp
  show "gate_inv (append_controlled (U_ops A t0 ! k) (clk k)) =
         append_controlled (instruction_inverse (U_ops A t0 ! k)) (clk k)"
    using assms(3) by (simp add: U_ops_nth append_controlled_def instruction_inverse_def)
qed

lemma controlled_cancel:
  assumes "is_matrix 4 4 A" "symmetric A"
  shows "run (map (\<lambda>k. append_controlled (instruction_inverse (U_ops A t0 ! k)) (clk k)) (rev [0..<5]))
           (run (map (\<lambda>k. append_controlled (U_ops A t0 ! k) (clk k)) [0..<5]) \<psi>) = \<psi>"
proof -
  let ?gs = "map (\<lambda>k. append_controlled (U_ops A t0 ! k) (clk k)) [0..<5]"
  have w: "list_all wf_gate ?gs"
    using ops_wf(1) [OF assms] by (simp add: list_all_iff)
  have "map (\<lambda>k. append_controlled (instruction_inverse (U_ops A t0 ! k)) (clk k)) (rev [0..<5]) =
        rev (map gate_inv ?gs)"
    using ops_wf(2) [OF assms] by (simp add: rev_map)
  then show ?thesis by (simp only: run_inverse [OF w])
qed

lemma qpe_inv_qpe:
  assumes "is_matrix 4 4 A" "symmetric A"
  shows "run (qpe (U_ops A t0) @ [Barrier, Barrier] @ inv_qpe (U_ops A t0)) \<psi> =
         run (map (\<lambda>j. H (clk j)) [0..<5]) \<psi>"
  by (simp add: qpe_def inv_qpe_def run_append run_qft_after_dg controlled_cancel [OF assms])


lemma upt8: "[0..<8] = [0, 1, 2, 3, 4, 5, 6, 7]"
  by (simp add: upt_rec)

lemma qpe_then_inv_qpe:
  assumes "is_matrix 4 4 A" "symmetric A"
  shows "run (inv_qpe (U_ops A t0)) (run (qpe (U_ops A t0)) \<psi>) =
         run (map (\<lambda>j. H (clk j)) [0..<5]) \<psi>"
  using qpe_inv_qpe [OF assms, of t0 \<psi>] by (simp add: run_append)

lemma H_step:
  assumes "\<And>b. b q \<Longrightarrow> \<psi> b = 0"
  shows "apply_gate (H q) \<psi> = (\<lambda>b. \<psi> (b(q := False)) / complex_of_real (sqrt 2))"
proof
  fix b
  have "\<psi> (b(q := True)) = 0" by (rule assms) simp
  then show "apply_gate (H q) \<psi> b = \<psi> (b(q := False)) / complex_of_real (sqrt 2)" by simp
qed


lemma amp_upd: "q < 6 \<Longrightarrow> amp bn (b(q := x)) = amp bn b"
  by (simp add: amp_def)

lemma initialized:
  "apply_gate (Initialize bn (sysq 0) (sysq 1)) zero_state =
     (\<lambda>b. if b 0 \<or> b 1 \<or> b 2 \<or> b 3 \<or> b 4 \<or> b 5 then 0 else amp bn b)"
  by (auto simp: fun_eq_iff zero_state_def sysq_def amp_def upt8)

lemma hadamards:
  "run (map (\<lambda>j. H (clk j)) [0..<5])
     (\<lambda>b. if b 0 \<or> b 1 \<or> b 2 \<or> b 3 \<or> b 4 \<or> b 5 then 0 else amp bn b) =
   (\<lambda>b. (if b 0 then 0 else amp bn b) / complex_of_real (sqrt 2) ^ 5)"
proof -
  let ?r = "complex_of_real (sqrt 2)"
  have p2: "?r ^ 2 = ?r * ?r" and p3: "?r ^ 3 = ?r ^ 2 * ?r" and p4: "?r ^ 4 = ?r ^ 3 * ?r"
    and p5: "?r ^ 5 = ?r ^ 4 * ?r"
    by (simp_all add: eval_nat_numeral)
  have 1: "apply_gate (H 1) (\<lambda>b. if b 0 \<or> b 1 \<or> b 2 \<or> b 3 \<or> b 4 \<or> b 5 then 0 else amp bn b) =
        (\<lambda>b. (if b 0 \<or> b 2 \<or> b 3 \<or> b 4 \<or> b 5 then 0 else amp bn b) / ?r)"
    by (subst H_step) (auto simp: fun_eq_iff amp_upd)
  have 2: "apply_gate (H 2) (\<lambda>b. (if b 0 \<or> b 2 \<or> b 3 \<or> b 4 \<or> b 5 then 0 else amp bn b) / ?r) =
        (\<lambda>b. (if b 0 \<or> b 3 \<or> b 4 \<or> b 5 then 0 else amp bn b) / ?r ^ 2)"
    by (subst H_step) (auto simp: fun_eq_iff amp_upd p2)
  have 3: "apply_gate (H 3) (\<lambda>b. (if b 0 \<or> b 3 \<or> b 4 \<or> b 5 then 0 else amp bn b) / ?r ^ 2) =
        (\<lambda>b. (if b 0 \<or> b 4 \<or> b 5 then 0 else amp bn b) / ?r ^ 3)"
    by (subst H_step) (auto simp: fun_eq_iff amp_upd p3)
  have 4: "apply_gate (H 4) (\<lambda>b. (if b 0 \<or> b 4 \<or> b 5 then 0 else amp bn b) / ?r ^ 3) =
        (\<lambda>b. (if b 0 \<or> b 5 then 0 else amp bn b) / ?r ^ 4)"
    by (subst H_step) (auto simp: fun_eq_iff amp_upd p4)
  have 5: "apply_gate (H 5) (\<lambda>b. (if b 0 \<or> b 5 then 0 else amp bn b) / ?r ^ 4) =
        (\<lambda>b. (if b 0 then 0 else amp bn b) / ?r ^ 5)"
    by (subst H_step) (auto simp: fun_eq_iff amp_upd p5)
  have gl: "map (\<lambda>j. H (clk j)) [0..<5] = [H 1, H 2, H 3, H 4, H 5]"
    by (simp add: upt5 clk_def)
  show ?thesis
    unfolding gl run.simps 1 2 3 4 5 by (rule refl)
qed


lemma state_data_nth: "n < 256 \<Longrightarrow> state_data \<psi> ! n = \<psi> (bit n)"
  by (simp add: state_data_def)

lemma length_state_data: "length (state_data \<psi>) = 256"
  by (simp add: state_data_def)

lemma tensor_index:
  "tensor data [i7, i6, i5, i4, i3, i2, i1, i0] =
   data ! (128 * i7 + 64 * i6 + 32 * i5 + 16 * i4 + 8 * i3 + 4 * i2 + 2 * i1 + i0)"
  by (simp add: tensor_def)

lemma sys_vec_spread:
  "concat (sys_amps (state_data (\<lambda>b. (if b 0 then 0 else amp bn b) / complex_of_real (sqrt 2) ^ 5))) =
     [complex_of_real (16 * (bn ! 2 + bn ! 3)) / complex_of_real (sqrt 2) ^ 5, 0,
      complex_of_real (16 * (bn ! 2 + bn ! 3)) / complex_of_real (sqrt 2) ^ 5, 0]"
  unfolding sys_amps_def tensor_index
  by (simp add: state_data_nth amp_def row_of_def bit_0 add_divide_distrib [symmetric])


lemma anc1_spread:
  "postselect_anc1 (state_data (\<lambda>b. (if b 0 then 0 else amp bn b) / complex_of_real (sqrt 2) ^ 5)) =
     [0, 0, 0, 0]"
  by (simp add: postselect_anc1_def basis_index_def state_data_nth upt_rec bit_0)

lemma hhl_recon_two_equal:
  assumes "length data = 256" "concat (sys_amps data) = [z, 0, z, 0]" "Re z \<noteq> 0" "Im z = 0"
  shows "hhl_recon data = Inr [[Fin 0, Fin 0], [Fin 1, Fin 1]]"
proof -
  have re: "Re (concat (sys_amps data) ! 0) \<noteq> 0" using assms(2,3) by simp
  have n: "vnorm [z, 0, z, 0] \<noteq> 0"
    using vnorm_pos [of "[z, 0, z, 0]"] assms(3) by simp
  have z: "z = complex_of_real (Re z)" using assms(4) by (simp add: complex_eq_iff)
  have "scaled_amps [z, 0, z, 0] = [1, 0, 1, 0]"
    using n assms(3) by (simp add: scaled_amps_def Let_def complex_eq_iff assms(4))
  then show ?thesis
    unfolding hhl_recon_finite [OF assms(1) re] assms(2)
    by (simp add: permuted_real_def)
qed


subsection \<open>C8: the emptied table\<close>

lemma b_norm_A4_unit: "length b_norm_A4 = 4 \<and> sum_list (map (\<lambda>t. t\<^sup>2) b_norm_A4) = 1"
  by (simp add: b_norm_A4_def power_divide)

lemma b_norm_A4_eq: "b_norm (transposed_times 4 A4 b4) = map Fin b_norm_A4"
proof -
  have "norm2 [7, 9, 11, 13] = sqrt 420" by (simp add: norm2_def)
  then show ?thesis by (simp add: tt_A4 b_norm_def b_norm_A4_def)
qed

lemma hhl_emptied:
  "hhl (U_ops (gram_plus_identity 4 A4) (2 * pi / 5)) b_norm_A4 [] = Inr emptied_circuit"
  using b_norm_A4_unit by (simp add: hhl_def isclose_def eigenvalue_inversion_def emptied_circuit_def)

lemma run_emptied:
  "run emptied_circuit zero_state =
     (\<lambda>b. (if b 0 then 0 else amp b_norm_A4 b) / complex_of_real (sqrt 2) ^ 5)"
proof -
  have m: "is_matrix 4 4 (gram_plus_identity 4 A4)" by (rule gram_shape) simp
  have s: "symmetric (gram_plus_identity 4 A4)" by (rule gram_symmetric) simp
  have "run emptied_circuit zero_state =
        run (map (\<lambda>j. H (clk j)) [0..<5])
          (apply_gate (Initialize b_norm_A4 (sysq 0) (sysq 1)) zero_state)"
    unfolding emptied_circuit_def
    by (simp add: run_append qpe_then_inv_qpe [OF m s])
  then show ?thesis by (simp only: initialized hadamards)
qed

text \<open>
  C8, as stated, fails for the notebook's system with the table emptied. The circuit then
  leaves the ancilla at 0, so the amplitudes with ancilla 1, summed over the clock, are
  all zero; the cell raises nothing and returns the finite array \<open>[[0, 0], [1, 1]]\<close>.
\<close>

theorem emptied_table_counterexample:
  "hhl (U_ops (gram_plus_identity 4 A4) (2 * pi / 5)) b_norm_A4 [] = Inr emptied_circuit \<and>
   postselect_anc1 (simulate emptied_circuit) = [0, 0, 0, 0] \<and>
   hhl_recon (simulate emptied_circuit) = Inr [[Fin 0, Fin 0], [Fin 1, Fin 1]]"
proof -
  let ?z = "complex_of_real (16 * (b_norm_A4 ! 2 + b_norm_A4 ! 3)) / complex_of_real (sqrt 2) ^ 5"
  have sim: "simulate emptied_circuit =
      state_data (\<lambda>b. (if b 0 then 0 else amp b_norm_A4 b) / complex_of_real (sqrt 2) ^ 5)"
    by (simp only: simulate_def run_emptied)
  define r where "r = 16 * (b_norm_A4 ! 2 + b_norm_A4 ! 3) / sqrt 2 ^ 5"
  have z: "?z = complex_of_real r"
    by (simp add: r_def)
  have pos: "0 < r"
    by (simp add: r_def b_norm_A4_def)
  have re: "Re ?z \<noteq> 0" and im: "Im ?z = 0"
    unfolding z using pos by simp_all
  have "hhl_recon (simulate emptied_circuit) = Inr [[Fin 0, Fin 0], [Fin 1, Fin 1]]"
    unfolding sim
    by (rule hhl_recon_two_equal [OF length_state_data sys_vec_spread re im])
  moreover have "postselect_anc1 (simulate emptied_circuit) = [0, 0, 0, 0]"
    unfolding sim by (rule anc1_spread)
  ultimately show ?thesis using hhl_emptied by simp
qed

subsection \<open>C2: the subspace that the cell selects\<close>

lemma upt32:
  "[0..<32] = [0, 1, 2, 3, 4, 5, 6, 7, 8, 9, 10, 11, 12, 13, 14, 15, 16, 17, 18, 19, 20, 21, 22,
     23, 24, 25, 26, 27, 28, 29, 30, 31]"
  by (simp add: upt_rec)

lemma sys_amps_marginal: "concat (sys_amps data) = sysq1_marginal data"
  unfolding sys_amps_def tensor_index sysq1_marginal_def upt32 upt4
  by (simp add: add.assoc)

lemma spread_amplitude:
  "complex_of_real (16 * (b_norm_A4 ! 2 + b_norm_A4 ! 3)) / complex_of_real (sqrt 2) ^ 5 =
   complex_of_real (96 / sqrt 840)"
proof -
  have "sqrt 840 = sqrt 420 * sqrt 2"
    using real_sqrt_mult [of 420 2] by simp
  moreover have "sqrt 2 ^ 5 = 4 * sqrt 2"
  proof -
    have "sqrt 2 ^ 5 = (sqrt 2 * sqrt 2) * (sqrt 2 * sqrt 2) * sqrt 2"
      by (simp add: eval_nat_numeral)
    then show ?thesis by simp
  qed
  ultimately have "16 * (b_norm_A4 ! 2 + b_norm_A4 ! 3) / sqrt 2 ^ 5 = 96 / sqrt 840"
    by (simp add: b_norm_A4_def field_simps)
  then have "complex_of_real (16 * (b_norm_A4 ! 2 + b_norm_A4 ! 3) / sqrt 2 ^ 5) =
      complex_of_real (96 / sqrt 840)"
    by (simp only:)
  then show ?thesis by (simp only: of_real_divide of_real_power)
qed

text \<open>
  C2 at the statevector of the circuit that \<^verbatim>\<open>hhl\<close> builds for the notebook's system with the
  table emptied. The amplitudes with ancilla 1, summed over the clock, are all zero. The
  cell selects the vector \<open>(z, 0, z, 0)\<close> with \<open>z = 96 / \<surd>840\<close> instead: \<^verbatim>\<open>tensor[1]\<close> fixes
  qubit 7, the second system qubit, at 1, the sum runs over the first system qubit and
  the clock qubits 1 to 4, and the kept axes are the first clock qubit and the ancilla.
  The cell's comments read \<^verbatim>\<open>ancilla . clk0-4 . sys0 . sys1\<close> for the axes and
  \<^verbatim>\<open>Post-select on ancilla=1\<close>.
\<close>

theorem selection_at_emptied_table:
  "concat (sys_amps (simulate emptied_circuit)) = sysq1_marginal (simulate emptied_circuit) \<and>
   concat (sys_amps (simulate emptied_circuit)) =
     [complex_of_real (96 / sqrt 840), 0, complex_of_real (96 / sqrt 840), 0] \<and>
   postselect_anc1 (simulate emptied_circuit) = [0, 0, 0, 0]"
proof -
  have sim: "simulate emptied_circuit =
      state_data (\<lambda>b. (if b 0 then 0 else amp b_norm_A4 b) / complex_of_real (sqrt 2) ^ 5)"
    by (simp only: simulate_def run_emptied)
  have "concat (sys_amps (simulate emptied_circuit)) =
      [complex_of_real (96 / sqrt 840), 0, complex_of_real (96 / sqrt 840), 0]"
    unfolding sim sys_vec_spread spread_amplitude ..
  moreover have "postselect_anc1 (simulate emptied_circuit) = [0, 0, 0, 0]"
    unfolding sim by (rule anc1_spread)
  ultimately show ?thesis by (simp only: sys_amps_marginal [symmetric] simp_thms)
qed

end
